theory Spec2Isabelle
  imports Complex_Main "HOL-Library.Char_ord" "HOL-Library.List_Lexorder"
begin

section \<open>JavaScript values and exceptions\<close>

text \<open>
  What \<^verbatim>\<open>JSON.parse\<close> returns. A number is a finite double, so a rational; the code
  below only ever tests a number for being zero. An object is the list of its members in
  source order; of two members with one name the later one counts.
\<close>

datatype json =
    JNull
  | JBool bool
  | JNumber rat
  | JString string
  | JArray "json list"
  | JObject "(string \<times> json) list"

text \<open>
  A thrown value is an \<^verbatim>\<open>Error\<close> (of any subclass) with its message, or something that
  is no \<^verbatim>\<open>Error\<close>. \<^verbatim>\<open>JSON.parse\<close> itself belongs to the runtime; it is a parameter
  \<open>parse\<close> of the functions that call it, returning the message of the
  \<^verbatim>\<open>SyntaxError\<close> on the left or the value on the right.
\<close>

datatype exn = Error string | NonError

type_synonym json_parser = "string \<Rightarrow> string + json"

text \<open>
  Reading a member \<^verbatim>\<open>v.name\<close> of a parsed value, for a name that no prototype defines
  (\<^verbatim>\<open>operation\<close>, \<^verbatim>\<open>id\<close>, \<^verbatim>\<open>timestamp\<close>, \<^verbatim>\<open>success\<close>): \<^verbatim>\<open>null\<close> has no
  members and the access throws a \<^verbatim>\<open>TypeError\<close> (with the message of V8, the engine
  of Node); every other value answers, with \<^verbatim>\<open>undefined\<close> (here \<open>None\<close>) unless it is
  an object with that member.
\<close>

definition read_member :: "json \<Rightarrow> string \<Rightarrow> exn + json option" where
  "read_member v name =
     (case v of
        JNull \<Rightarrow> Inl (Error (''Cannot read properties of null (reading '' @ [CHR 0x27] @ name @ [CHR 0x27] @ '')''))
      | JObject members \<Rightarrow> Inr (map_of (rev members) name)
      | _ \<Rightarrow> Inr None)"

text \<open>Truthiness: \<^verbatim>\<open>undefined\<close>, \<^verbatim>\<open>null\<close>, \<^verbatim>\<open>false\<close>, 0 and the empty string are falsy.\<close>

fun truthy :: "json option \<Rightarrow> bool" where
  "truthy None = False"
| "truthy (Some JNull) = False"
| "truthy (Some (JBool b)) = b"
| "truthy (Some (JNumber n)) = (n \<noteq> 0)"
| "truthy (Some (JString s)) = (s \<noteq> [])"
| "truthy (Some (JArray vs)) = True"
| "truthy (Some (JObject members)) = True"

text \<open>\<^verbatim>\<open>error instanceof Error ? error.message : 'Unknown error'\<close>\<close>

fun catch_message :: "exn \<Rightarrow> string" where
  "catch_message (Error msg) = msg"
| "catch_message NonError = ''Unknown error''"

text \<open>A number in a template literal: the decimal digits of a status code.\<close>

fun string_of_nat :: "nat \<Rightarrow> string" where
  "string_of_nat n =
     (if n < 10 then [''0123456789'' ! n]
      else string_of_nat (n div 10) @ [''0123456789'' ! (n mod 10)])"


section \<open>The write queue (class SqliteQueue)\<close>

text \<open>
  The queue lives in the table \<^verbatim>\<open>write_queue\<close>. A row carries the columns of the
  CREATE TABLE statement of the constructor. The column \<^verbatim>\<open>processed\<close> is the state of
  the entry: 0 is pending, 1 is processed, -1 is dead. SQLite integers are 64-bit; the
  counters here start at 0 and grow by one per call, so they are modelled as unbounded
  integers. The column \<^verbatim>\<open>id\<close> is called \<open>row_id\<close>, since \<open>id\<close> is the identity
  function of HOL.
\<close>

record queue_row =
  row_id :: int
  queue_name :: string
  message :: string
  created_at :: int
  processed :: int
  attempts :: int
  max_attempts :: int
  last_error :: "string option"

text \<open>
  The table is the list of its rows in insertion order, with the counter that
  AUTOINCREMENT keeps (the largest id ever handed out).
\<close>

record write_queue =
  rows :: "queue_row list"
  seq :: int

text \<open>The row a SELECT of \<^verbatim>\<open>id, message, attempts\<close> returns.\<close>

record fetched_row =
  sel_id :: int
  sel_message :: string
  sel_attempts :: int

text \<open>
  \<^verbatim>\<open>LIMIT ?\<close> of SQLite: a negative bound means no bound at all.
\<close>

definition sql_limit :: "int \<Rightarrow> 'a list \<Rightarrow> 'a list" where
  "sql_limit n xs = (if n < 0 then xs else take (nat n) xs)"

text \<open>
  \<^verbatim>\<open>INSERT INTO write_queue (queue_name, message) VALUES (?, ?)\<close>: the other columns
  take their defaults; \<open>now\<close> is the clock reading that \<^verbatim>\<open>created_at\<close> defaults to.
\<close>

definition stmtInsert_run :: "int \<Rightarrow> string \<Rightarrow> string \<Rightarrow> write_queue \<Rightarrow> write_queue" where
  "stmtInsert_run now name messageData q =
     \<lparr>rows = rows q @
        [\<lparr>row_id = seq q + 1, queue_name = name, message = messageData, created_at = now,
          processed = 0, attempts = 0, max_attempts = 3, last_error = None\<rparr>],
      seq = seq q + 1\<rparr>"

text \<open>
  \<^verbatim>\<open>SELECT id, message, attempts FROM write_queue WHERE processed = 0 AND queue_name = ?
  ORDER BY id ASC LIMIT ?\<close>
\<close>

definition pending_rows :: "string \<Rightarrow> write_queue \<Rightarrow> queue_row list" where
  "pending_rows name q =
     sort_key row_id (filter (\<lambda>r. processed r = 0 \<and> queue_name r = name) (rows q))"

definition select_cols :: "queue_row \<Rightarrow> fetched_row" where
  "select_cols r = \<lparr>sel_id = row_id r, sel_message = message r, sel_attempts = attempts r\<rparr>"

definition stmtFetch_all :: "string \<Rightarrow> int \<Rightarrow> write_queue \<Rightarrow> fetched_row list" where
  "stmtFetch_all name lmt q = map select_cols (sql_limit lmt (pending_rows name q))"

text \<open>\<^verbatim>\<open>UPDATE write_queue SET processed = 1 WHERE id = ?\<close>\<close>

definition row_processed :: "queue_row \<Rightarrow> queue_row" where
  "row_processed r = r\<lparr>processed := 1\<rparr>"

definition stmtMarkProcessed_run :: "int \<Rightarrow> write_queue \<Rightarrow> write_queue" where
  "stmtMarkProcessed_run i q =
     q\<lparr>rows := map (\<lambda>r. if row_id r = i then row_processed r else r) (rows q)\<rparr>"

text \<open>
  \<^verbatim>\<open>UPDATE write_queue SET attempts = attempts + 1, last_error = ?, processed = CASE WHEN
  attempts + 1 >= max_attempts THEN -1 ELSE 0 END WHERE id = ?\<close>. The right-hand sides of
  an UPDATE read the row as it was before the statement.
\<close>

definition row_failed :: "string \<Rightarrow> queue_row \<Rightarrow> queue_row" where
  "row_failed err r =
     r\<lparr>attempts := attempts r + 1, last_error := Some err,
       processed := (if attempts r + 1 \<ge> max_attempts r then - 1 else 0)\<rparr>"

definition stmtMarkFailed_run :: "string \<Rightarrow> int \<Rightarrow> write_queue \<Rightarrow> write_queue" where
  "stmtMarkFailed_run err i q =
     q\<lparr>rows := map (\<lambda>r. if row_id r = i then row_failed err r else r) (rows q)\<rparr>"

subsection \<open>The methods\<close>

text \<open>
  \<open>fetchPending\<close> is a query; it is given the shape of a state transformer so that
  what it does to the table is part of the model. The default limit of the source is 10.
\<close>

definition fetchPending :: "string \<Rightarrow> int option \<Rightarrow> write_queue \<Rightarrow> fetched_row list \<times> write_queue" where
  "fetchPending name limit q =
     (let lmt = (case limit of None \<Rightarrow> 10 | Some n \<Rightarrow> n) in (stmtFetch_all name lmt q, q))"

definition markProcessed :: "int \<Rightarrow> write_queue \<Rightarrow> write_queue" where
  "markProcessed i q = stmtMarkProcessed_run i q"

definition markFailed :: "int \<Rightarrow> string \<Rightarrow> write_queue \<Rightarrow> write_queue" where
  "markFailed i err q = stmtMarkFailed_run err i q"

text \<open>The row with a given id, as \<^verbatim>\<open>SELECT * FROM write_queue WHERE id = ?\<close> reads it.\<close>

definition entry :: "int \<Rightarrow> write_queue \<Rightarrow> queue_row option" where
  "entry i q = find (\<lambda>r. row_id r = i) (rows q)"

text \<open>
  A caller's history of acknowledgements and failures: any sequence of calls of the two
  methods, on any ids.
\<close>

datatype queue_call = MarkProcessed int | MarkFailed int string

fun run_call :: "queue_call \<Rightarrow> write_queue \<Rightarrow> write_queue" where
  "run_call (MarkProcessed i) q = markProcessed i q"
| "run_call (MarkFailed i err) q = markFailed i err q"

fun run_calls :: "queue_call list \<Rightarrow> write_queue \<Rightarrow> write_queue" where
  "run_calls [] q = q"
| "run_calls (c # cs) q = run_calls cs (run_call c q)"

text \<open>
  The table as the constructor leaves it in a new database, and a table after three calls
  of the INSERT statement: two entries of the queue \<^verbatim>\<open>test-queue\<close> and one of another
  queue sharing the table.
\<close>

definition empty_queue :: write_queue where
  "empty_queue = \<lparr>rows = [], seq = 0\<rparr>"

definition demo_queue :: write_queue where
  "demo_queue =
     stmtInsert_run 0 ''other-queue'' ''c''
       (stmtInsert_run 0 ''test-queue'' ''b''
         (stmtInsert_run 0 ''test-queue'' ''a'' empty_queue))"

text \<open>
  A fetch with bound \<open>lmt\<close> reaches the entry \<open>i\<close> of a queue when the bound is
  negative (no bound) or at most \<open>lmt\<close> pending entries of that queue have an id up to
  \<open>i\<close>: the query returns the pending entries by ascending id and stops at the bound.
\<close>

definition reaches :: "int \<Rightarrow> string \<Rightarrow> int \<Rightarrow> write_queue \<Rightarrow> bool" where
  "reaches lmt name i q =
     (lmt < 0 \<or> int (length (filter (\<lambda>x. row_id x \<le> i) (pending_rows name q))) \<le> lmt)"

section \<open>The queue processor (class SqliteQueueProvider)\<close>

text \<open>
  The endpoint the processor posts to is outside the program. A request is what
  \<^verbatim>\<open>fetch\<close> is called with; the call is rejected with a thrown value or answers with a
  response, whose body readers \<^verbatim>\<open>text()\<close> and \<^verbatim>\<open>json()\<close> may throw in turn. The
  endpoint is a function of the requests made before in the tick and of the request.
\<close>

record request =
  req_url :: string
  req_headers :: "(string \<times> string) list"
  req_body :: string

record response =
  ok :: bool
  status :: nat
  text_body :: "exn + string"
  json_body :: "exn + json"

type_synonym endpoint = "request list \<Rightarrow> request \<Rightarrow> exn + response"

record provider =
  serverUrl :: string
  apiSecret :: string

text \<open>
  \<^verbatim>\<open>!messageData.operation || !messageData.id || !messageData.timestamp\<close>, evaluated
  from left to right; a member access that throws ends the evaluation.
\<close>

definition invalid_structure :: "json \<Rightarrow> exn + bool" where
  "invalid_structure messageData =
     (case read_member messageData ''operation'' of
        Inl e \<Rightarrow> Inl e
      | Inr operation \<Rightarrow>
          if \<not> truthy operation then Inr True
          else (case read_member messageData ''id'' of
                  Inl e \<Rightarrow> Inl e
                | Inr ident \<Rightarrow>
                    if \<not> truthy ident then Inr True
                    else (case read_member messageData ''timestamp'' of
                            Inl e \<Rightarrow> Inl e
                          | Inr timestamp \<Rightarrow> Inr (\<not> truthy timestamp))))"

text \<open>
  The part of the loop body after the validation. First the request: the headers carry
  the bearer token only when the secret is not empty.
\<close>

definition build_request :: "provider \<Rightarrow> fetched_row \<Rightarrow> request" where
  "build_request p row =
     \<lparr>req_url = serverUrl p @ ''/queues/process-message'',
      req_headers = [(''Content-Type'', ''application/json'')]
        @ (if apiSecret p \<noteq> [] then [(''Authorization'', ''Bearer '' @ apiSecret p)] else []),
      req_body = sel_message row\<rparr>"

text \<open>
  Then what the outcome of the request does to the entry \<open>i\<close>: a rejected call and a
  body reader that throws end in the \<^verbatim>\<open>catch\<close>; a response that is not ok fails the
  entry with its status and text; an ok response acknowledges the entry when the
  \<^verbatim>\<open>success\<close> member of its body is truthy and fails it otherwise.
\<close>

definition record_outcome :: "int \<Rightarrow> exn + response \<Rightarrow> write_queue \<Rightarrow> write_queue" where
  "record_outcome i outcome q =
     (case outcome of
        Inl e \<Rightarrow> markFailed i (catch_message e) q
      | Inr resp \<Rightarrow>
          if \<not> ok resp then
            (case text_body resp of
               Inl e \<Rightarrow> markFailed i (catch_message e) q
             | Inr errorText \<Rightarrow>
                 markFailed i (''HTTP '' @ string_of_nat (status resp) @ '': '' @ errorText) q)
          else
            (case json_body resp of
               Inl e \<Rightarrow> markFailed i (catch_message e) q
             | Inr result \<Rightarrow>
                 (case read_member result ''success'' of
                    Inl e \<Rightarrow> markFailed i (catch_message e) q
                  | Inr success \<Rightarrow>
                      if truthy success then markProcessed i q
                      else markFailed i ''Processing returned success=false'' q)))"

text \<open>
  The state of the loop is the table and the log of the requests made so far, each with
  the id of the row it was made for.
\<close>

definition dispatch_row ::
  "endpoint \<Rightarrow> provider \<Rightarrow> fetched_row \<Rightarrow> write_queue \<times> (int \<times> request) list
     \<Rightarrow> write_queue \<times> (int \<times> request) list" where
  "dispatch_row fetch p row st =
     (let req = build_request p row
      in (record_outcome (sel_id row) (fetch (map snd (snd st)) req) (fst st),
          snd st @ [(sel_id row, req)]))"

text \<open>The body of the loop over the fetched rows, with its \<^verbatim>\<open>try\<close> and \<^verbatim>\<open>catch\<close>.\<close>

definition process_row ::
  "json_parser \<Rightarrow> endpoint \<Rightarrow> provider \<Rightarrow> fetched_row \<Rightarrow> write_queue \<times> (int \<times> request) list
     \<Rightarrow> write_queue \<times> (int \<times> request) list" where
  "process_row parse fetch p row st =
     (case parse (sel_message row) of
        Inl msg \<Rightarrow> (markFailed (sel_id row) msg (fst st), snd st)
      | Inr messageData \<Rightarrow>
          (case invalid_structure messageData of
             Inl e \<Rightarrow> (markFailed (sel_id row) (catch_message e) (fst st), snd st)
           | Inr True \<Rightarrow> (markFailed (sel_id row) ''Invalid message format'' (fst st), snd st)
           | Inr False \<Rightarrow> dispatch_row fetch p row st))"

text \<open>
  One tick. The provider's queue is the one named \<^verbatim>\<open>DP1_WRITE_QUEUE\<close>. The result is
  the table after the tick and the requests made, in order.
\<close>

definition processPendingMessages ::
  "json_parser \<Rightarrow> endpoint \<Rightarrow> provider \<Rightarrow> write_queue \<Rightarrow> write_queue \<times> (int \<times> request) list" where
  "processPendingMessages parse fetch p q =
     (let (pending, q0) = fetchPending ''DP1_WRITE_QUEUE'' (Some 10) q
      in if length pending = 0 then (q0, [])
         else fold (process_row parse fetch p) pending (q0, []))"

text \<open>
  \<open>send\<close>: a string is stored as it is, any other value as \<^verbatim>\<open>JSON.stringify\<close>
  (a parameter, as \<^verbatim>\<open>JSON.parse\<close> is) prints it.
\<close>

definition send :: "(json \<Rightarrow> string) \<Rightarrow> int \<Rightarrow> string \<Rightarrow> string + json \<Rightarrow> write_queue \<Rightarrow> write_queue" where
  "send stringify now name msg q =
     (let messageData = (case msg of Inl s \<Rightarrow> s | Inr v \<Rightarrow> stringify v)
      in stmtInsert_run now name messageData q)"

text \<open>
  The member of a parsed value that is not \<^verbatim>\<open>null\<close>, and the test that such a
  message lacks one of the three markers the processor requires (a marker that is present
  but falsy counts as lacking, as the source's negations have it).
\<close>

definition member :: "json \<Rightarrow> string \<Rightarrow> json option" where
  "member v name = (case v of JObject members \<Rightarrow> map_of (rev members) name | _ \<Rightarrow> None)"

definition lacks_marker :: "json \<Rightarrow> bool" where
  "lacks_marker v =
     (\<not> (truthy (member v ''operation'') \<and> truthy (member v ''id'') \<and> truthy (member v ''timestamp'')))"

text \<open>
  A stand-in for \<^verbatim>\<open>JSON.parse\<close> that agrees with it on the two messages it knows,
  \<^verbatim>\<open>null\<close> and \<^verbatim>\<open>{"incomplete":true}\<close>, and an endpoint that accepts everything.
\<close>

definition demo_parse :: json_parser where
  "demo_parse s =
     (if s = ''null'' then Inr JNull
      else if s = ''{\"incomplete\":true}'' then Inr (JObject [(''incomplete'', JBool True)])
      else Inl ''Unexpected token'')"

definition demo_endpoint :: endpoint where
  "demo_endpoint made req =
     Inr \<lparr>ok = True, status = 200, text_body = Inr ''{\"success\":true}'',
         json_body = Inr (JObject [(''success'', JBool True)])\<rparr>"

definition demo_provider :: provider where
  "demo_provider = \<lparr>serverUrl = ''http://localhost:8787'', apiSecret = ''test-secret''\<rparr>"

section \<open>The key-value storage (class SqliteKVStorage)\<close>

text \<open>
  A namespace is a table with the columns \<^verbatim>\<open>key TEXT PRIMARY KEY\<close> and
  \<^verbatim>\<open>value TEXT NOT NULL\<close>: the list of its rows, in the order of their insertion.
  The database maps the names of the tables that exist to their contents. A string is a
  list of characters, compared character by character as the BINARY collation does; the
  characters of HOL are bytes, which is exact for keys in ASCII.

  A write statement can fail for reasons outside the program (a full disk, a lock, a
  value over the size limit). The field \<open>faults\<close> schedules such failures: every
  execution of a write statement takes the head of the list, and throws the error with
  that message when it is \<open>Some\<close> one. A statement on a table that does not exist
  throws as well.
\<close>

type_synonym kv_table = "(string \<times> string) list"

record database =
  tables :: "string \<Rightarrow> kv_table option"
  faults :: "string option list"

fun next_fault :: "string option list \<Rightarrow> string option \<times> string option list" where
  "next_fault [] = (None, [])"
| "next_fault (f # fs) = (f, fs)"

definition no_such_table :: "string \<Rightarrow> exn" where
  "no_such_table tn = Error (''no such table: '' @ tn)"

definition run_write ::
  "string \<Rightarrow> (kv_table \<Rightarrow> kv_table) \<Rightarrow> database \<Rightarrow> (exn + unit) \<times> database" where
  "run_write tn change db =
     (let db1 = db\<lparr>faults := snd (next_fault (faults db))\<rparr>
      in case fst (next_fault (faults db)) of
           Some msg \<Rightarrow> (Inl (Error msg), db1)
         | None \<Rightarrow>
             (case tables db tn of
                None \<Rightarrow> (Inl (no_such_table tn), db1)
              | Some t \<Rightarrow> (Inr (), db1\<lparr>tables := (tables db)(tn \<mapsto> change t)\<rparr>)))"

text \<open>
  \<^verbatim>\<open>INSERT OR REPLACE INTO t (key, value) VALUES (?, ?)\<close>: a row with the same key is
  deleted, then the new row is inserted.
\<close>

definition insert_or_replace :: "string \<Rightarrow> string \<Rightarrow> kv_table \<Rightarrow> kv_table" where
  "insert_or_replace k v t = filter (\<lambda>r. fst r \<noteq> k) t @ [(k, v)]"

definition stmtPut_run :: "string \<Rightarrow> string \<Rightarrow> string \<Rightarrow> database \<Rightarrow> (exn + unit) \<times> database" where
  "stmtPut_run tn k v db = run_write tn (insert_or_replace k v) db"

text \<open>\<^verbatim>\<open>DELETE FROM t WHERE key = ?\<close>\<close>

definition delete_where :: "string \<Rightarrow> kv_table \<Rightarrow> kv_table" where
  "delete_where k t = filter (\<lambda>r. fst r \<noteq> k) t"

definition stmtDelete_run :: "string \<Rightarrow> string \<Rightarrow> database \<Rightarrow> (exn + unit) \<times> database" where
  "stmtDelete_run tn k db = run_write tn (delete_where k) db"

text \<open>\<^verbatim>\<open>SELECT value FROM t WHERE key = ?\<close>: the row, or \<^verbatim>\<open>undefined\<close>.\<close>

definition stmtGet_get :: "string \<Rightarrow> string \<Rightarrow> database \<Rightarrow> exn + string option" where
  "stmtGet_get tn k db =
     (case tables db tn of
        None \<Rightarrow> Inl (no_such_table tn)
      | Some t \<Rightarrow> Inr (map_of t k))"

subsection \<open>get, put, delete\<close>

datatype kv_value = Text string | Parsed json

text \<open>\<open>as_json\<close> is \<^verbatim>\<open>options?.type === 'json'\<close>.\<close>

definition get :: "json_parser \<Rightarrow> string \<Rightarrow> string \<Rightarrow> bool \<Rightarrow> database \<Rightarrow> exn + kv_value option" where
  "get parse tn k as_json db =
     (case stmtGet_get tn k db of
        Inl e \<Rightarrow> Inl e
      | Inr None \<Rightarrow> Inr None
      | Inr (Some v) \<Rightarrow>
          if as_json then
            (case parse v of
               Inl msg \<Rightarrow> Inl (Error msg)
             | Inr j \<Rightarrow> Inr (Some (Parsed j)))
          else Inr (Some (Text v)))"

definition put :: "string \<Rightarrow> string \<Rightarrow> string \<Rightarrow> database \<Rightarrow> (exn + unit) \<times> database" where
  "put tn k v db = stmtPut_run tn k v db"

definition delete :: "string \<Rightarrow> string \<Rightarrow> database \<Rightarrow> (exn + unit) \<times> database" where
  "delete tn k db = stmtDelete_run tn k db"

subsection \<open>Batches\<close>

text \<open>
  \<^verbatim>\<open>db.transaction(fn)\<close> of better-sqlite3: begin, run the function, commit; when the
  function throws, roll back and throw again. A rollback restores the tables; what the
  environment did meanwhile (the faults taken) is not undone.
\<close>

definition transaction ::
  "('a \<Rightarrow> database \<Rightarrow> (exn + unit) \<times> database) \<Rightarrow> 'a \<Rightarrow> database \<Rightarrow> (exn + unit) \<times> database" where
  "transaction fn arg db =
     (case fn arg db of
        (Inl e, db') \<Rightarrow> (Inl e, db'\<lparr>tables := tables db\<rparr>)
      | (Inr u, db') \<Rightarrow> (Inr u, db'))"

text \<open>The loops inside the two transactions; a statement that throws ends the loop.\<close>

fun put_items :: "string \<Rightarrow> (string \<times> string) list \<Rightarrow> database \<Rightarrow> (exn + unit) \<times> database" where
  "put_items tn [] db = (Inr (), db)"
| "put_items tn (item # items) db =
     (case stmtPut_run tn (fst item) (snd item) db of
        (Inl e, db') \<Rightarrow> (Inl e, db')
      | (Inr u, db') \<Rightarrow> put_items tn items db')"

fun delete_keys :: "string \<Rightarrow> string list \<Rightarrow> database \<Rightarrow> (exn + unit) \<times> database" where
  "delete_keys tn [] db = (Inr (), db)"
| "delete_keys tn (k # ks) db =
     (case stmtDelete_run tn k db of
        (Inl e, db') \<Rightarrow> (Inl e, db')
      | (Inr u, db') \<Rightarrow> delete_keys tn ks db')"

text \<open>
  An entry is the pair of its key and its value. The result is the list of failed keys,
  or the error the call ends with.
\<close>

definition putMultiple ::
  "string \<Rightarrow> (string \<times> string) list \<Rightarrow> database \<Rightarrow> (exn + string list) \<times> database" where
  "putMultiple tn entries db =
     (if length entries = 0 then (Inr [], db)
      else if length entries = 1 then
        (case put tn (fst (hd entries)) (snd (hd entries)) db of
           (Inl e, db') \<Rightarrow> (Inl e, db')
         | (Inr u, db') \<Rightarrow> (Inr [], db'))
      else
        (case transaction (put_items tn) entries db of
           (Inr u, db') \<Rightarrow> (Inr [], db')
         | (Inl e, db') \<Rightarrow> (Inr (map fst entries), db')))"

definition deleteMultiple ::
  "string \<Rightarrow> string list \<Rightarrow> database \<Rightarrow> (exn + string list) \<times> database" where
  "deleteMultiple tn ks db =
     (if length ks = 0 then (Inr [], db)
      else if length ks = 1 then
        (case delete tn (hd ks) db of
           (Inl e, db') \<Rightarrow> (Inl e, db')
         | (Inr u, db') \<Rightarrow> (Inr [], db'))
      else
        (case transaction (delete_keys tn) ks db of
           (Inr u, db') \<Rightarrow> (Inr [], db')
         | (Inl e, db') \<Rightarrow> (Inr ks, db')))"

subsection \<open>list\<close>

text \<open>
  The LIKE operator of SQLite, with no ESCAPE clause and the default
  \<^verbatim>\<open>case_sensitive_like = OFF\<close>: in the pattern \<^verbatim>\<open>%\<close> matches any run of characters,
  \<^verbatim>\<open>_\<close> matches any one character, and every other character matches itself, the
  ASCII letters without regard to case.
\<close>

definition ascii_upper :: "char \<Rightarrow> char" where
  "ascii_upper c =
     (case map_of (zip ''abcdefghijklmnopqrstuvwxyz'' ''ABCDEFGHIJKLMNOPQRSTUVWXYZ'') c of
        None \<Rightarrow> c
      | Some u \<Rightarrow> u)"

fun sql_like :: "string \<Rightarrow> string \<Rightarrow> bool" where
  "sql_like [] s = (s = [])"
| "sql_like (p # ps) [] = (p = CHR ''%'' \<and> sql_like ps [])"
| "sql_like (p # ps) (c # cs) =
     (if p = CHR ''%'' then sql_like ps (c # cs) \<or> sql_like (p # ps) cs
      else (p = CHR ''_'' \<or> ascii_upper p = ascii_upper c) \<and> sql_like ps cs)"

record KVListOptions =
  opt_prefix :: "string option"
  opt_limit :: "int option"
  opt_cursor :: "string option"

record KVListResult =
  keys :: "string list"
  list_complete :: bool
  cursor :: "string option"

text \<open>
  The two queries: \<^verbatim>\<open>SELECT key FROM t WHERE key LIKE ? ORDER BY key ASC LIMIT ?\<close>, and
  the same with \<^verbatim>\<open>AND key > ?\<close>.
\<close>

definition select_keys :: "string \<Rightarrow> string \<Rightarrow> string option \<Rightarrow> int \<Rightarrow> database \<Rightarrow> exn + string list" where
  "select_keys tn pattern after lmt db =
     (case tables db tn of
        None \<Rightarrow> Inl (no_such_table tn)
      | Some t \<Rightarrow>
          Inr (sql_limit lmt (sort (filter
                 (\<lambda>k. sql_like pattern k \<and> (case after of None \<Rightarrow> True | Some c \<Rightarrow> c < k))
                 (map fst t)))))"

text \<open>
  \<open>list\<close> of the source. \<^verbatim>\<open>options?.prefix || ''\<close> and \<^verbatim>\<open>options?.limit || 1000\<close>
  replace a falsy value by the default, and \<^verbatim>\<open>if (options?.cursor)\<close> takes the first
  query for a falsy cursor: an absent one and the empty string. The limit is a whole
  number.
\<close>

definition list_keys :: "string \<Rightarrow> KVListOptions \<Rightarrow> database \<Rightarrow> exn + KVListResult" where
  "list_keys tn options db =
     (let prefix = (case opt_prefix options of None \<Rightarrow> [] | Some p \<Rightarrow> p);
          limit = (case opt_limit options of None \<Rightarrow> 1000 | Some n \<Rightarrow> if n = 0 then 1000 else n);
          after = (case opt_cursor options of None \<Rightarrow> None | Some c \<Rightarrow> if c = [] then None else Some c)
      in case select_keys tn (prefix @ ''%'') after limit db of
           Inl e \<Rightarrow> Inl e
         | Inr found \<Rightarrow>
             (let hasMore = (int (length found) = limit)
              in Inr \<lparr>keys = found, list_complete = \<not> hasMore,
                      cursor = (if hasMore \<and> length found > 0 then Some (last found) else None)\<rparr>))"

subsection \<open>Opening the storage\<close>

text \<open>
  A new database has no table. The constructor of \<open>SqliteKVStorage\<close> runs
  \<^verbatim>\<open>CREATE TABLE IF NOT EXISTS\<close>; the storage provider constructs the three
  namespaces of the application.
\<close>

definition new_database :: database where
  "new_database = \<lparr>tables = (\<lambda>tn. None), faults = []\<rparr>"

definition create_table :: "string \<Rightarrow> database \<Rightarrow> database" where
  "create_table tn db =
     (case tables db tn of
        None \<Rightarrow> db\<lparr>tables := (tables db)(tn \<mapsto> [])\<rparr>
      | Some t \<Rightarrow> db)"

definition SqliteStorageProvider :: database where
  "SqliteStorageProvider =
     create_table ''playlist_items'' (create_table ''channels'' (create_table ''playlists'' new_database))"

text \<open>A database with one table of given rows and a given schedule of faults.\<close>

definition one_table :: "string \<Rightarrow> kv_table \<Rightarrow> string option list \<Rightarrow> database" where
  "one_table tn t fs = \<lparr>tables = (\<lambda>n. if n = tn then Some t else None), faults = fs\<rparr>"

subsection \<open>Histories of calls\<close>

text \<open>
  A history of \<open>put\<close> and \<open>delete\<close> calls on any namespaces, each call given its
  namespace; a call that throws leaves the caller with the database as the call left it.
\<close>

datatype kv_call = Put string string string | Delete string string

fun run_kv_call :: "kv_call \<Rightarrow> database \<Rightarrow> database" where
  "run_kv_call (Put ns k v) db = snd (put ns k v db)"
| "run_kv_call (Delete ns k) db = snd (delete ns k db)"

definition run_kv_calls :: "kv_call list \<Rightarrow> database \<Rightarrow> database" where
  "run_kv_calls calls db = foldl (\<lambda>d c. run_kv_call c d) db calls"

text \<open>
  What a reader of the history expects of \<open>get\<close>: going back from the most recent
  call, the first call on this key of this namespace decides, a \<open>put\<close> by its value and a
  \<open>delete\<close> by absence; with no such call, the value \<open>before\<close> the history stands. The
  argument is the history with the most recent call first.
\<close>

fun latest_put :: "string option \<Rightarrow> string \<Rightarrow> string \<Rightarrow> kv_call list \<Rightarrow> string option" where
  "latest_put before ns k [] = before"
| "latest_put before ns k (Put ns' k' v # earlier) =
     (if ns' = ns \<and> k' = k then Some v else latest_put before ns k earlier)"
| "latest_put before ns k (Delete ns' k' # earlier) =
     (if ns' = ns \<and> k' = k then None else latest_put before ns k earlier)"

text \<open>The storage works when no fault is scheduled.\<close>

definition no_faults :: "database \<Rightarrow> bool" where
  "no_faults db = (filter (\<lambda>f. f \<noteq> None) (faults db) = [])"

text \<open>
  The storage fails during a batch of \<open>n\<close> statements on a table when the table does
  not exist or a fault is scheduled for one of the next \<open>n\<close> statements.
\<close>

definition batch_fails :: "database \<Rightarrow> string \<Rightarrow> nat \<Rightarrow> bool" where
  "batch_fails db tn n =
     (tables db tn = None \<or> filter (\<lambda>f. f \<noteq> None) (take n (faults db)) \<noteq> [])"

text \<open>
  Both loops run a list of changes of one table, one write statement each, up to the
  first statement that throws.
\<close>

fun write_all :: "string \<Rightarrow> (kv_table \<Rightarrow> kv_table) list \<Rightarrow> database \<Rightarrow> (exn + unit) \<times> database" where
  "write_all tn [] db = (Inr (), db)"
| "write_all tn (change # changes) db =
     (case run_write tn change db of
        (Inl e, db') \<Rightarrow> (Inl e, db')
      | (Inr u, db') \<Rightarrow> write_all tn changes db')"

text \<open>
  Reading a listing page by page, the way the cursor is meant to be used: call \<open>list\<close>
  and, as long as the page is not complete, call it again with the cursor of the page,
  the prefix and the limit staying the same. The first argument bounds the number of
  calls; the result is \<open>None\<close> when that many calls have not reached a complete page.
\<close>

fun list_pages ::
  "nat \<Rightarrow> string \<Rightarrow> string option \<Rightarrow> int \<Rightarrow> string option \<Rightarrow> database
     \<Rightarrow> (exn + string list) option" where
  "list_pages 0 tn p L c db = None"
| "list_pages (Suc n) tn p L c db =
     (case list_keys tn \<lparr>opt_prefix = p, opt_limit = Some L, opt_cursor = c\<rparr> db of
        Inl e \<Rightarrow> Some (Inl e)
      | Inr page \<Rightarrow>
          if list_complete page then Some (Inr (keys page))
          else (case list_pages n tn p L (cursor page) db of
                  None \<Rightarrow> None
                | Some (Inl e) \<Rightarrow> Some (Inl e)
                | Some (Inr later) \<Rightarrow> Some (Inr (keys page @ later))))"

text \<open>The keys of a table that a prefix selects, in ascending order.\<close>

definition matching_keys :: "string option \<Rightarrow> kv_table \<Rightarrow> string list" where
  "matching_keys p t =
     sort (filter (sql_like ((case p of None \<Rightarrow> [] | Some x \<Rightarrow> x) @ ''%'')) (map fst t))"

text \<open>The condition \<^verbatim>\<open>key > ?\<close> of the second query, absent from the first.\<close>

definition after_cursor :: "string option \<Rightarrow> string \<Rightarrow> bool" where
  "after_cursor c k = (case c of None \<Rightarrow> True | Some x \<Rightarrow> x < k)"

section \<open>Properties of the write queue\<close>

subsection \<open>Rows and their updates\<close>

lemma find_map_upd:
  assumes "\<And>r. row_id (f r) = row_id r"
  shows "find (\<lambda>r. row_id r = i) (map (\<lambda>r. if row_id r = j then f r else r) xs)
       = map_option (\<lambda>r. if row_id r = j then f r else r) (find (\<lambda>r. row_id r = i) xs)"
  using assms by (induction xs) auto

lemma find_Some_id: "find (\<lambda>r. row_id r = i) xs = Some r \<Longrightarrow> row_id r = i"
  by (induction xs) (auto split: if_splits)

lemma entry_markProcessed:
  "entry i (markProcessed j q) = map_option (\<lambda>r. if j = i then row_processed r else r) (entry i q)"
proof -
  have "entry i (markProcessed j q) = map_option (\<lambda>r. if row_id r = j then row_processed r else r) (entry i q)"
    unfolding entry_def markProcessed_def stmtMarkProcessed_run_def
    by (simp add: find_map_upd row_processed_def)
  also have "\<dots> = map_option (\<lambda>r. if j = i then row_processed r else r) (entry i q)"
    by (cases "entry i q") (auto simp: entry_def dest: find_Some_id)
  finally show ?thesis .
qed

lemma entry_markFailed:
  "entry i (markFailed j e q) = map_option (\<lambda>r. if j = i then row_failed e r else r) (entry i q)"
proof -
  have "entry i (markFailed j e q) = map_option (\<lambda>r. if row_id r = j then row_failed e r else r) (entry i q)"
    unfolding entry_def markFailed_def stmtMarkFailed_run_def
    by (simp add: find_map_upd row_failed_def)
  also have "\<dots> = map_option (\<lambda>r. if j = i then row_failed e r else r) (entry i q)"
    by (cases "entry i q") (auto simp: entry_def dest: find_Some_id)
  finally show ?thesis .
qed

lemma markProcessed_twice: "markProcessed i (markProcessed i q) = markProcessed i q"
  by (simp add: markProcessed_def stmtMarkProcessed_run_def row_processed_def comp_def)

lemma set_sql_limit: "set (sql_limit n xs) \<subseteq> set xs"
  by (auto simp: sql_limit_def dest: in_set_takeD)

lemma set_pending_rows:
  "set (pending_rows name q) = {r \<in> set (rows q). processed r = 0 \<and> queue_name r = name}"
  by (auto simp: pending_rows_def)

lemma fetched_from_pending:
  "f \<in> set (fst (fetchPending name limit q)) \<Longrightarrow>
     \<exists>r \<in> set (rows q). f = select_cols r \<and> processed r = 0 \<and> queue_name r = name"
proof -
  assume "f \<in> set (fst (fetchPending name limit q))"
  then obtain lmt where "f \<in> select_cols ` set (sql_limit lmt (pending_rows name q))"
    by (auto simp: fetchPending_def stmtFetch_all_def Let_def)
  then obtain r where "r \<in> set (pending_rows name q)" "f = select_cols r"
    using set_sql_limit[of lmt "pending_rows name q"] by blast
  then show ?thesis by (auto simp: set_pending_rows)
qed

lemma fetched_ids:
  "sel_id ` set (fst (fetchPending name limit q)) \<subseteq> row_id ` {r \<in> set (rows q). processed r = 0 \<and> queue_name r = name}"
proof
  fix i assume "i \<in> sel_id ` set (fst (fetchPending name limit q))"
  then obtain f where f: "f \<in> set (fst (fetchPending name limit q))" "i = sel_id f" by blast
  from fetched_from_pending[OF f(1)] obtain r where
    "r \<in> set (rows q)" "f = select_cols r" "processed r = 0" "queue_name r = name" by blast
  with f(2) show "i \<in> row_id ` {r \<in> set (rows q). processed r = 0 \<and> queue_name r = name}"
    by (auto simp: select_cols_def)
qed

lemma rows_markProcessed_state:
  assumes "r \<in> set (rows (markProcessed i q))" "row_id r = i"
  shows "processed r = 1"
proof -
  from assms(1) obtain r0 where r0: "r0 \<in> set (rows q)"
      "r = (if row_id r0 = i then row_processed r0 else r0)"
    by (auto simp: markProcessed_def stmtMarkProcessed_run_def)
  show ?thesis
  proof (cases "row_id r0 = i")
    case True
    with r0 show ?thesis by (simp add: row_processed_def)
  next
    case False
    with r0 assms(2) show ?thesis by simp
  qed
qed

lemma not_fetched_after_markProcessed:
  "i \<notin> sel_id ` set (fst (fetchPending name limit (markProcessed i q)))"
proof
  assume "i \<in> sel_id ` set (fst (fetchPending name limit (markProcessed i q)))"
  with fetched_ids[of name limit "markProcessed i q"]
  obtain r where "r \<in> set (rows (markProcessed i q))" "processed r = 0" "row_id r = i"
    by auto
  with rows_markProcessed_state[of r i q] show False by simp
qed

lemma map_sel_id: "map sel_id (map select_cols xs) = map row_id xs"
  by (simp add: select_cols_def comp_def)

lemma sorted_sql_limit: "sorted (map f xs) \<Longrightarrow> sorted (map f (sql_limit n xs))"
  by (simp add: sql_limit_def take_map[symmetric] sorted_wrt_take)

lemma distinct_sql_limit: "distinct (map f xs) \<Longrightarrow> distinct (map f (sql_limit n xs))"
  by (simp add: sql_limit_def take_map[symmetric] distinct_take)

lemma length_sql_limit: "0 \<le> n \<Longrightarrow> length (sql_limit n xs) \<le> nat n"
  by (simp add: sql_limit_def)

lemma sorted_pending_rows: "sorted (map row_id (pending_rows name q))"
  by (simp add: pending_rows_def)

lemma distinct_pending_rows:
  assumes "distinct (map row_id (rows q))"
  shows "distinct (map row_id (pending_rows name q))"
proof -
  have "distinct (map row_id (filter (\<lambda>r. processed r = 0 \<and> queue_name r = name) (rows q)))"
    using assms by (rule distinct_map_filter)
  then show ?thesis
    unfolding pending_rows_def by (simp add: distinct_map)
qed

lemma fetchPending_ids:
  "map sel_id (fst (fetchPending name limit q))
     = map row_id (sql_limit (case limit of None \<Rightarrow> 10 | Some n \<Rightarrow> n) (pending_rows name q))"
  by (simp add: fetchPending_def stmtFetch_all_def select_cols_def comp_def)

lemma ids_markProcessed: "map row_id (rows (markProcessed j q)) = map row_id (rows q)"
  by (simp add: markProcessed_def stmtMarkProcessed_run_def row_processed_def comp_def)

lemma ids_markFailed: "map row_id (rows (markFailed j e q)) = map row_id (rows q)"
  by (simp add: markFailed_def stmtMarkFailed_run_def row_failed_def comp_def)

lemma ids_run_calls: "map row_id (rows (run_calls cs q)) = map row_id (rows q)"
proof (induction cs arbitrary: q)
  case Nil
  show ?case by simp
next
  case (Cons c cs)
  show ?case by (cases c) (simp_all add: Cons.IH ids_markProcessed ids_markFailed)
qed

lemma entry_in_rows: "entry i q = Some r \<Longrightarrow> r \<in> set (rows q) \<and> row_id r = i"
  unfolding entry_def by (induction "rows q" arbitrary: q) (auto simp: find_Some_iff in_set_conv_nth)

lemma find_distinct:
  "distinct (map row_id xs) \<Longrightarrow> r \<in> set xs \<Longrightarrow> find (\<lambda>x. row_id x = row_id r) xs = Some r"
  by (induction xs) (auto simp: image_iff)

lemma entry_distinct:
  "distinct (map row_id (rows q)) \<Longrightarrow> r \<in> set (rows q) \<Longrightarrow> entry (row_id r) q = Some r"
  unfolding entry_def by (rule find_distinct)

lemma entry_run_call_attempts:
  assumes "entry i q = Some r"
  shows "\<exists>r'. entry i (run_call c q) = Some r' \<and> attempts r \<le> attempts r'
           \<and> max_attempts r' = max_attempts r
           \<and> (processed r \<noteq> 0 \<and> max_attempts r \<le> attempts r
                \<longrightarrow> processed r' \<noteq> 0 \<and> max_attempts r' \<le> attempts r')"
proof (cases c)
  case (MarkProcessed j)
  then show ?thesis using assms
    by (simp add: entry_markProcessed row_processed_def)
next
  case (MarkFailed j e)
  then show ?thesis using assms
    by (simp add: entry_markFailed row_failed_def)
qed

lemma entry_run_calls_attempts:
  "entry i q = Some r \<Longrightarrow>
   \<exists>r'. entry i (run_calls cs q) = Some r' \<and> attempts r \<le> attempts r'
           \<and> max_attempts r' = max_attempts r
           \<and> (processed r \<noteq> 0 \<and> max_attempts r \<le> attempts r
                \<longrightarrow> processed r' \<noteq> 0 \<and> max_attempts r' \<le> attempts r')"
proof (induction cs arbitrary: q r)
  case Nil
  then show ?case by simp
next
  case (Cons c cs)
  from entry_run_call_attempts[OF Cons.prems, of c] obtain r1 where
    r1: "entry i (run_call c q) = Some r1" "attempts r \<le> attempts r1"
        "max_attempts r1 = max_attempts r"
        "processed r \<noteq> 0 \<and> max_attempts r \<le> attempts r
           \<longrightarrow> processed r1 \<noteq> 0 \<and> max_attempts r1 \<le> attempts r1"
    by blast
  from Cons.IH[OF r1(1)] obtain r2 where
    r2: "entry i (run_calls cs (run_call c q)) = Some r2" "attempts r1 \<le> attempts r2"
        "max_attempts r2 = max_attempts r1"
        "processed r1 \<noteq> 0 \<and> max_attempts r1 \<le> attempts r1
           \<longrightarrow> processed r2 \<noteq> 0 \<and> max_attempts r2 \<le> attempts r2"
    by blast
  from r1 r2 show ?case by auto
qed

lemma take_sorted_member:
  assumes s: "sorted (map f xs)" and x: "x \<in> set xs"
    and c: "length (filter (\<lambda>y. f y \<le> f x) xs) \<le> n"
  shows "x \<in> set (take n xs)"
proof (rule ccontr)
  assume nx: "x \<notin> set (take n xs)"
  have split: "xs = take n xs @ drop n xs" by simp
  with x nx have xd: "x \<in> set (drop n xs)"
    by (metis Un_iff set_append)
  then have len: "n < length xs"
    by (cases "n < length xs") auto
  have "sorted (map f (take n xs) @ map f (drop n xs))"
    using s by (metis split map_append)
  then have "\<forall>y \<in> set (take n xs). f y \<le> f x"
    using xd by (auto simp: sorted_append)
  then have "filter (\<lambda>y. f y \<le> f x) (take n xs) = take n xs"
    by (simp add: filter_id_conv)
  moreover have "filter (\<lambda>y. f y \<le> f x) (drop n xs) \<noteq> []"
    using xd by (auto simp: filter_empty_conv)
  moreover have "filter (\<lambda>y. f y \<le> f x) xs
      = filter (\<lambda>y. f y \<le> f x) (take n xs) @ filter (\<lambda>y. f y \<le> f x) (drop n xs)"
    by (metis split filter_append)
  ultimately have "length (filter (\<lambda>y. f y \<le> f x) xs) > n"
    using len by (simp add: length_greater_0_conv[symmetric] del: length_greater_0_conv)
  with c show False by simp
qed

lemma fetched_when_reached:
  assumes e: "entry i q = Some r" and p: "processed r = 0"
    and c: "lmt < 0 \<or> int (length (filter (\<lambda>x. row_id x \<le> i) (pending_rows (queue_name r) q))) \<le> lmt"
  shows "i \<in> sel_id ` set (fst (fetchPending (queue_name r) (Some lmt) q))"
proof -
  from entry_in_rows[OF e] p have rin: "r \<in> set (pending_rows (queue_name r) q)" and ri: "row_id r = i"
    by (simp_all add: set_pending_rows)
  have "r \<in> set (sql_limit lmt (pending_rows (queue_name r) q))"
  proof (cases "lmt < 0")
    case True
    with rin show ?thesis by (simp add: sql_limit_def)
  next
    case False
    with c ri have "length (filter (\<lambda>x. row_id x \<le> row_id r) (pending_rows (queue_name r) q)) \<le> nat lmt"
      by simp
    from take_sorted_member[OF sorted_pending_rows rin this] False
    show ?thesis by (simp add: sql_limit_def)
  qed
  then have "row_id r \<in> set (map row_id (sql_limit lmt (pending_rows (queue_name r) q)))"
    by simp
  with ri have "i \<in> set (map sel_id (fst (fetchPending (queue_name r) (Some lmt) q)))"
    by (simp only: fetchPending_ids option.case)
  then show ?thesis by (simp only: set_map)
qed

lemma never_fetched_if_not_pending:
  assumes d: "distinct (map row_id (rows q))" and e: "entry i q = Some r" and p: "processed r \<noteq> 0"
  shows "i \<notin> sel_id ` set (fst (fetchPending name limit q))"
proof
  assume "i \<in> sel_id ` set (fst (fetchPending name limit q))"
  with fetched_ids[of name limit q]
  obtain r' where r': "r' \<in> set (rows q)" "processed r' = 0" "row_id r' = i"
    by auto
  from entry_distinct[OF d r'(1)] r'(3) e have "r' = r" by simp
  with p r'(2) show False by simp
qed

lemma demo_queue_rows:
  "rows demo_queue =
    [\<lparr>row_id = 1, queue_name = ''test-queue'', message = ''a'', created_at = 0,
       processed = 0, attempts = 0, max_attempts = 3, last_error = None\<rparr>,
     \<lparr>row_id = 2, queue_name = ''test-queue'', message = ''b'', created_at = 0,
       processed = 0, attempts = 0, max_attempts = 3, last_error = None\<rparr>,
     \<lparr>row_id = 3, queue_name = ''other-queue'', message = ''c'', created_at = 0,
       processed = 0, attempts = 0, max_attempts = 3, last_error = None\<rparr>]"
  by (simp add: demo_queue_def empty_queue_def stmtInsert_run_def)

lemmas queue_eval = entry_def markFailed_def markProcessed_def stmtMarkFailed_run_def
  stmtMarkProcessed_run_def row_failed_def row_processed_def demo_queue_rows

subsection \<open>Fetching\<close>

text \<open>
  Claim C6. \<open>fetchPending\<close> leaves the table as it was; with a limit \<open>lmt \<ge> 0\<close> it
  returns at most \<open>lmt\<close> entries, and at most 10 with the default limit; every entry
  it returns is the projection of a row of the table that is pending (\<open>processed = 0\<close>,
  so neither processed nor dead) and carries this queue's name; the ids come in ascending
  order, strictly ascending since the ids of a table are distinct (\<^verbatim>\<open>id\<close> is the primary
  key). A negative limit is no limit in SQLite, which is why the bound is stated for
  \<open>lmt \<ge> 0\<close>.
\<close>

theorem fetchPending_spec:
  "snd (fetchPending name limit q) = q
   \<and> (0 \<le> lmt \<longrightarrow> length (fst (fetchPending name (Some lmt) q)) \<le> nat lmt)
   \<and> length (fst (fetchPending name None q)) \<le> 10
   \<and> (\<forall>f \<in> set (fst (fetchPending name limit q)).
         \<exists>r \<in> set (rows q). f = select_cols r \<and> processed r = 0 \<and> queue_name r = name)
   \<and> sorted (map sel_id (fst (fetchPending name limit q)))
   \<and> (distinct (map row_id (rows q)) \<longrightarrow> sorted_wrt (<) (map sel_id (fst (fetchPending name limit q))))"
proof -
  have unchanged: "snd (fetchPending name limit q) = q"
    by (simp add: fetchPending_def)
  have bound: "0 \<le> lmt \<longrightarrow> length (fst (fetchPending name (Some lmt) q)) \<le> nat lmt"
    by (simp add: fetchPending_def stmtFetch_all_def length_sql_limit)
  have bound10: "length (fst (fetchPending name None q)) \<le> 10"
    using length_sql_limit[of 10 "pending_rows name q"]
    by (simp add: fetchPending_def stmtFetch_all_def)
  have pend: "\<forall>f \<in> set (fst (fetchPending name limit q)).
         \<exists>r \<in> set (rows q). f = select_cols r \<and> processed r = 0 \<and> queue_name r = name"
    using fetched_from_pending by blast
  have srt: "sorted (map sel_id (fst (fetchPending name limit q)))"
    unfolding fetchPending_ids by (rule sorted_sql_limit) (rule sorted_pending_rows)
  have strict: "distinct (map row_id (rows q)) \<longrightarrow> sorted_wrt (<) (map sel_id (fst (fetchPending name limit q)))"
  proof
    assume d: "distinct (map row_id (rows q))"
    have "distinct (map sel_id (fst (fetchPending name limit q)))"
      unfolding fetchPending_ids
      by (rule distinct_sql_limit) (rule distinct_pending_rows[OF d])
    with srt show "sorted_wrt (<) (map sel_id (fst (fetchPending name limit q)))"
      by (simp add: strict_sorted_iff)
  qed
  show ?thesis by (intro conjI unchanged bound bound10 pend srt strict)
qed

theorem fetchPending_spec_witness:
  "(0::int) \<le> 1 \<and> distinct (map row_id (rows demo_queue))
   \<and> fst (fetchPending ''test-queue'' (Some 1) demo_queue)
        = [\<lparr>sel_id = 1, sel_message = ''a'', sel_attempts = 0\<rparr>]
   \<and> snd (fetchPending ''test-queue'' (Some 1) demo_queue) = demo_queue
   \<and> length (fst (fetchPending ''test-queue'' (Some 1) demo_queue)) \<le> nat 1
   \<and> sorted_wrt (<) (map sel_id (fst (fetchPending ''test-queue'' (Some 1) demo_queue)))"
proof -
  have d: "distinct (map row_id (rows demo_queue))"
    by (simp add: demo_queue_rows)
  have ev: "fst (fetchPending ''test-queue'' (Some 1) demo_queue)
        = [\<lparr>sel_id = 1, sel_message = ''a'', sel_attempts = 0\<rparr>]"
    by (simp add: fetchPending_def stmtFetch_all_def sql_limit_def pending_rows_def
        select_cols_def demo_queue_rows)
  note t = fetchPending_spec[of "''test-queue''" "Some 1" demo_queue 1]
  from t have "snd (fetchPending ''test-queue'' (Some 1) demo_queue) = demo_queue" by blast
  moreover from t have "length (fst (fetchPending ''test-queue'' (Some 1) demo_queue)) \<le> nat 1" by simp
  moreover from t d have "sorted_wrt (<) (map sel_id (fst (fetchPending ''test-queue'' (Some 1) demo_queue)))" by blast
  ultimately show ?thesis using d ev by simp
qed

subsection \<open>Failing an entry\<close>

text \<open>
  Claim C3. For a pending entry, \<open>markFailed\<close> adds exactly one to \<open>attempts\<close>,
  overwrites \<open>last_error\<close> with the message, and makes the entry dead exactly when the
  count after the increment has reached \<open>max_attempts\<close>; otherwise the entry stays
  pending and a later \<open>fetchPending\<close> of its queue returns it whenever its limit reaches
  it. In particular, for an entry as \<open>send\<close> creates it (\<open>attempts = 0\<close>,
  \<open>max_attempts = 3\<close>): failed twice it is pending with \<open>attempts = 2\<close> and still
  fetched; failed three times it is dead with \<open>attempts = 3\<close>, and after any further
  sequence of \<open>markProcessed\<close> and \<open>markFailed\<close> calls no fetch, of any queue name and
  any limit, returns it.
\<close>

theorem markFailed_spec:
  "(entry i q = Some r \<and> processed r = 0 \<longrightarrow>
      (\<exists>r'. entry i (markFailed i err q) = Some r'
          \<and> attempts r' = attempts r + 1
          \<and> last_error r' = Some err
          \<and> (processed r' = - 1 \<longleftrightarrow> max_attempts r \<le> attempts r + 1)
          \<and> (processed r' = 0 \<longleftrightarrow> \<not> max_attempts r \<le> attempts r + 1)
          \<and> (processed r' = 0 \<and> reaches lmt (queue_name r) i (markFailed i err q)
               \<longrightarrow> i \<in> sel_id ` set (fst (fetchPending (queue_name r) (Some lmt) (markFailed i err q))))))
   \<and> (entry i q = Some r \<and> attempts r = 0 \<and> max_attempts r = 3 \<longrightarrow>
        map_option processed (entry i (markFailed i e2 (markFailed i e1 q))) = Some 0
      \<and> map_option attempts (entry i (markFailed i e2 (markFailed i e1 q))) = Some 2
      \<and> (reaches lmt (queue_name r) i (markFailed i e2 (markFailed i e1 q))
           \<longrightarrow> i \<in> sel_id ` set (fst (fetchPending (queue_name r) (Some lmt)
                                          (markFailed i e2 (markFailed i e1 q)))))
      \<and> map_option processed (entry i (markFailed i e3 (markFailed i e2 (markFailed i e1 q)))) = Some (- 1)
      \<and> map_option attempts (entry i (markFailed i e3 (markFailed i e2 (markFailed i e1 q)))) = Some 3
      \<and> (distinct (map row_id (rows q)) \<longrightarrow>
            (\<forall>cs name limit. i \<notin> sel_id ` set (fst (fetchPending name limit
                (run_calls cs (markFailed i e3 (markFailed i e2 (markFailed i e1 q)))))))))"
proof (intro conjI impI)
  assume a: "entry i q = Some r \<and> processed r = 0"
  let ?q' = "markFailed i err q"
  have e': "entry i ?q' = Some (row_failed err r)"
    using a by (simp add: entry_markFailed)
  have fetched: "i \<in> sel_id ` set (fst (fetchPending (queue_name r) (Some lmt) ?q'))"
    if "processed (row_failed err r) = 0" "reaches lmt (queue_name r) i ?q'"
    using fetched_when_reached[OF e', of lmt] that
    by (simp add: reaches_def row_failed_def)
  show "\<exists>r'. entry i ?q' = Some r'
          \<and> attempts r' = attempts r + 1
          \<and> last_error r' = Some err
          \<and> (processed r' = - 1 \<longleftrightarrow> max_attempts r \<le> attempts r + 1)
          \<and> (processed r' = 0 \<longleftrightarrow> \<not> max_attempts r \<le> attempts r + 1)
          \<and> (processed r' = 0 \<and> reaches lmt (queue_name r) i ?q'
               \<longrightarrow> i \<in> sel_id ` set (fst (fetchPending (queue_name r) (Some lmt) ?q')))"
  proof (intro exI conjI impI)
    show "entry i ?q' = Some (row_failed err r)" by (rule e')
    show "attempts (row_failed err r) = attempts r + 1" by (simp add: row_failed_def)
    show "last_error (row_failed err r) = Some err" by (simp add: row_failed_def)
    show "(processed (row_failed err r) = - 1) = (max_attempts r \<le> attempts r + 1)"
      by (simp add: row_failed_def)
    show "(processed (row_failed err r) = 0) = (\<not> max_attempts r \<le> attempts r + 1)"
      by (simp add: row_failed_def)
    show "i \<in> sel_id ` set (fst (fetchPending (queue_name r) (Some lmt) ?q'))"
      if "processed (row_failed err r) = 0 \<and> reaches lmt (queue_name r) i ?q'"
      using fetched that by blast
  qed
next
  assume a: "entry i q = Some r \<and> attempts r = 0 \<and> max_attempts r = 3"
  let ?q2 = "markFailed i e2 (markFailed i e1 q)"
  let ?q3 = "markFailed i e3 ?q2"
  let ?r2 = "row_failed e2 (row_failed e1 r)"
  let ?r3 = "row_failed e3 ?r2"
  have e2: "entry i ?q2 = Some ?r2" using a by (simp add: entry_markFailed)
  have e3: "entry i ?q3 = Some ?r3" using a by (simp add: entry_markFailed)
  have r2: "processed ?r2 = 0" "attempts ?r2 = 2" "queue_name ?r2 = queue_name r"
    using a by (simp_all add: row_failed_def)
  have r3: "processed ?r3 = - 1" "attempts ?r3 = 3"
    using a by (simp_all add: row_failed_def)
  show "map_option processed (entry i ?q2) = Some 0" by (simp add: e2 r2)
  show "map_option attempts (entry i ?q2) = Some 2" by (simp add: e2 r2)
  show "map_option processed (entry i ?q3) = Some (- 1)" by (simp add: e3 r3)
  show "map_option attempts (entry i ?q3) = Some 3" by (simp add: e3 r3)
  show "i \<in> sel_id ` set (fst (fetchPending (queue_name r) (Some lmt) ?q2))"
    if "reaches lmt (queue_name r) i ?q2"
    using fetched_when_reached[OF e2 r2(1), of lmt] that by (simp add: reaches_def r2(3))
  show "\<forall>cs name limit. i \<notin> sel_id ` set (fst (fetchPending name limit (run_calls cs ?q3)))"
    if d: "distinct (map row_id (rows q))"
  proof (intro allI)
    fix cs name limit
    have "max_attempts ?r3 = 3" using a by (simp add: row_failed_def)
    with r3 have ex: "processed ?r3 \<noteq> 0 \<and> max_attempts ?r3 \<le> attempts ?r3" by simp
    from entry_run_calls_attempts[OF e3, of cs] ex obtain r' where
      r': "entry i (run_calls cs ?q3) = Some r'" "processed r' \<noteq> 0"
      by blast
    have "distinct (map row_id (rows (run_calls cs ?q3)))"
      using d by (simp add: ids_run_calls ids_markFailed)
    from never_fetched_if_not_pending[OF this r']
    show "i \<notin> sel_id ` set (fst (fetchPending name limit (run_calls cs ?q3)))" .
  qed
qed

theorem markFailed_spec_witness:
  "entry 1 demo_queue
     = Some \<lparr>row_id = 1, queue_name = ''test-queue'', message = ''a'', created_at = 0,
         processed = 0, attempts = 0, max_attempts = 3, last_error = None\<rparr>
   \<and> distinct (map row_id (rows demo_queue))
   \<and> reaches 10 ''test-queue'' 1 (markFailed 1 ''Error 2'' (markFailed 1 ''Error 1'' demo_queue))
   \<and> 1 \<in> sel_id ` set (fst (fetchPending ''test-queue'' (Some 10)
                 (markFailed 1 ''Error 2'' (markFailed 1 ''Error 1'' demo_queue))))
   \<and> map_option processed (entry 1 (markFailed 1 ''Error 3''
         (markFailed 1 ''Error 2'' (markFailed 1 ''Error 1'' demo_queue)))) = Some (- 1)
   \<and> map_option attempts (entry 1 (markFailed 1 ''Error 3''
         (markFailed 1 ''Error 2'' (markFailed 1 ''Error 1'' demo_queue)))) = Some 3
   \<and> 1 \<notin> sel_id ` set (fst (fetchPending ''test-queue'' None
         (run_calls [MarkProcessed 1, MarkFailed 1 ''again'']
           (markFailed 1 ''Error 3'' (markFailed 1 ''Error 2'' (markFailed 1 ''Error 1'' demo_queue))))))"
proof -
  let ?r = "\<lparr>row_id = 1, queue_name = ''test-queue'', message = ''a'', created_at = 0,
         processed = 0, attempts = 0, max_attempts = 3, last_error = None\<rparr>"
  have e: "entry 1 demo_queue = Some ?r"
    by (simp add: entry_def demo_queue_rows)
  have d: "distinct (map row_id (rows demo_queue))"
    by (simp add: demo_queue_rows)
  have re: "reaches 10 ''test-queue'' 1 (markFailed 1 ''Error 2'' (markFailed 1 ''Error 1'' demo_queue))"
    by (simp add: reaches_def pending_rows_def queue_eval)
  note t = markFailed_spec[of 1 demo_queue ?r "''Error 1''" 10 "''Error 2''" "''Error 1''" "''Error 3''",
      THEN conjunct2, rule_format]
  have h: "entry 1 demo_queue = Some ?r \<and> attempts ?r = 0 \<and> max_attempts ?r = 3"
    using e by simp
  note c = t[OF h]
  from c re have "1 \<in> sel_id ` set (fst (fetchPending ''test-queue'' (Some 10)
                 (markFailed 1 ''Error 2'' (markFailed 1 ''Error 1'' demo_queue))))"
    by simp
  moreover from c have "map_option processed (entry 1 (markFailed 1 ''Error 3''
         (markFailed 1 ''Error 2'' (markFailed 1 ''Error 1'' demo_queue)))) = Some (- 1)"
    by blast
  moreover from c have "map_option attempts (entry 1 (markFailed 1 ''Error 3''
         (markFailed 1 ''Error 2'' (markFailed 1 ''Error 1'' demo_queue)))) = Some 3"
    by blast
  moreover from c d have "1 \<notin> sel_id ` set (fst (fetchPending ''test-queue'' None
         (run_calls [MarkProcessed 1, MarkFailed 1 ''again'']
           (markFailed 1 ''Error 3'' (markFailed 1 ''Error 2'' (markFailed 1 ''Error 1'' demo_queue))))))"
    by blast
  ultimately show ?thesis using e d re by blast
qed

subsection \<open>The transitions of an entry\<close>

text \<open>
  Claim C2, as the code has it. The two UPDATE statements select the row by its id alone,
  whatever its state. So: \<open>markProcessed\<close> sets \<open>processed = 1\<close>; \<open>markFailed\<close> adds one
  to \<open>attempts\<close> and sets the state from the new count alone, dead when it has reached
  \<open>max_attempts\<close> and pending otherwise. From a pending entry these are the three
  transitions of the claim. Over any sequence of calls, \<open>attempts\<close> never decreases, and
  an entry that is not pending and has used up its attempts (as every entry that
  \<open>markFailed\<close> made dead has) is never pending again.
\<close>

theorem queue_transitions:
  "entry i q = Some r \<longrightarrow>
     entry i (markProcessed i q) = Some (r\<lparr>processed := 1\<rparr>)
   \<and> entry i (markFailed i err q)
       = Some (r\<lparr>attempts := attempts r + 1, last_error := Some err,
                 processed := (if max_attempts r \<le> attempts r + 1 then - 1 else 0)\<rparr>)
   \<and> (processed r = 0 \<longrightarrow>
        map_option processed (entry i (markProcessed i q)) = Some 1
      \<and> map_option processed (entry i (markFailed i err q))
          = Some (if max_attempts r \<le> attempts r + 1 then - 1 else 0))
   \<and> (\<exists>r'. entry i (run_calls cs q) = Some r' \<and> attempts r \<le> attempts r')
   \<and> (processed r \<noteq> 0 \<and> max_attempts r \<le> attempts r \<longrightarrow>
        (\<exists>r'. entry i (run_calls cs q) = Some r' \<and> processed r' \<noteq> 0))"
proof
  assume e: "entry i q = Some r"
  have p: "entry i (markProcessed i q) = Some (r\<lparr>processed := 1\<rparr>)"
    using e by (simp add: entry_markProcessed row_processed_def)
  have f: "entry i (markFailed i err q)
       = Some (r\<lparr>attempts := attempts r + 1, last_error := Some err,
                 processed := (if max_attempts r \<le> attempts r + 1 then - 1 else 0)\<rparr>)"
    using e by (simp add: entry_markFailed row_failed_def)
  from entry_run_calls_attempts[OF e, of cs] obtain r' where
    r': "entry i (run_calls cs q) = Some r'" "attempts r \<le> attempts r'"
      "processed r \<noteq> 0 \<and> max_attempts r \<le> attempts r \<longrightarrow> processed r' \<noteq> 0"
    by blast
  show "entry i (markProcessed i q) = Some (r\<lparr>processed := 1\<rparr>)
   \<and> entry i (markFailed i err q)
       = Some (r\<lparr>attempts := attempts r + 1, last_error := Some err,
                 processed := (if max_attempts r \<le> attempts r + 1 then - 1 else 0)\<rparr>)
   \<and> (processed r = 0 \<longrightarrow>
        map_option processed (entry i (markProcessed i q)) = Some 1
      \<and> map_option processed (entry i (markFailed i err q))
          = Some (if max_attempts r \<le> attempts r + 1 then - 1 else 0))
   \<and> (\<exists>r'. entry i (run_calls cs q) = Some r' \<and> attempts r \<le> attempts r')
   \<and> (processed r \<noteq> 0 \<and> max_attempts r \<le> attempts r \<longrightarrow>
        (\<exists>r'. entry i (run_calls cs q) = Some r' \<and> processed r' \<noteq> 0))"
  proof (intro conjI impI)
    show "entry i (markProcessed i q) = Some (r\<lparr>processed := 1\<rparr>)" by (rule p)
    show "entry i (markFailed i err q)
       = Some (r\<lparr>attempts := attempts r + 1, last_error := Some err,
                 processed := (if max_attempts r \<le> attempts r + 1 then - 1 else 0)\<rparr>)" by (rule f)
    show "map_option processed (entry i (markProcessed i q)) = Some 1" by (simp add: p)
    show "map_option processed (entry i (markFailed i err q))
          = Some (if max_attempts r \<le> attempts r + 1 then - 1 else 0)" by (simp add: f)
    show "\<exists>r'. entry i (run_calls cs q) = Some r' \<and> attempts r \<le> attempts r'"
      using r' by blast
    show "\<exists>r'. entry i (run_calls cs q) = Some r' \<and> processed r' \<noteq> 0"
      if "processed r \<noteq> 0 \<and> max_attempts r \<le> attempts r"
      using r' that by blast
  qed
qed

theorem queue_transitions_witness:
  "entry 2 (markFailed 2 ''e3'' (markFailed 2 ''e2'' (markFailed 2 ''e1'' demo_queue)))
     = Some \<lparr>row_id = 2, queue_name = ''test-queue'', message = ''b'', created_at = 0,
         processed = - 1, attempts = 3, max_attempts = 3, last_error = Some ''e3''\<rparr>
   \<and> (\<exists>r'. entry 2 (run_calls [MarkFailed 2 ''e4'', MarkProcessed 2, MarkFailed 2 ''e5'']
           (markFailed 2 ''e3'' (markFailed 2 ''e2'' (markFailed 2 ''e1'' demo_queue)))) = Some r'
         \<and> processed r' \<noteq> 0)
   \<and> (\<exists>r'. entry 2 (run_calls [MarkFailed 2 ''e4'', MarkProcessed 2, MarkFailed 2 ''e5'']
           (markFailed 2 ''e3'' (markFailed 2 ''e2'' (markFailed 2 ''e1'' demo_queue)))) = Some r'
         \<and> 3 \<le> attempts r')"
proof -
  let ?q = "markFailed 2 ''e3'' (markFailed 2 ''e2'' (markFailed 2 ''e1'' demo_queue))"
  let ?r = "\<lparr>row_id = 2, queue_name = ''test-queue'', message = ''b'', created_at = 0,
         processed = - 1, attempts = 3, max_attempts = 3, last_error = Some ''e3''\<rparr>"
  have e: "entry 2 ?q = Some ?r" by (simp add: queue_eval)
  note t = queue_transitions[of 2 ?q ?r _ "[MarkFailed 2 ''e4'', MarkProcessed 2, MarkFailed 2 ''e5'']",
      rule_format, OF e]
  from t have "\<exists>r'. entry 2 (run_calls [MarkFailed 2 ''e4'', MarkProcessed 2, MarkFailed 2 ''e5''] ?q) = Some r'
         \<and> processed r' \<noteq> 0" by simp
  moreover from t have "\<exists>r'. entry 2 (run_calls [MarkFailed 2 ''e4'', MarkProcessed 2, MarkFailed 2 ''e5''] ?q) = Some r'
         \<and> 3 \<le> attempts r'" by simp
  ultimately show ?thesis using e by blast
qed

text \<open>
  The claim as stated fails: a processed entry that is failed afterwards is pending
  again, and a dead entry that is acknowledged afterwards is processed.
\<close>

theorem terminal_states_counterexample:
  "map_option processed (entry 1 (markProcessed 1 demo_queue)) = Some 1
   \<and> map_option processed (entry 1 (markFailed 1 ''late failure'' (markProcessed 1 demo_queue))) = Some 0
   \<and> map_option processed (entry 2 (markFailed 2 ''e3'' (markFailed 2 ''e2'' (markFailed 2 ''e1'' demo_queue))))
       = Some (- 1)
   \<and> map_option processed (entry 2 (markProcessed 2
        (markFailed 2 ''e3'' (markFailed 2 ''e2'' (markFailed 2 ''e1'' demo_queue))))) = Some 1"
  by (simp add: queue_eval)


subsection \<open>Acknowledging twice\<close>

text \<open>
  Claim C8. \<open>markProcessed\<close> is idempotent. The method is one UPDATE statement, which
  changes the rows with the given id and is not an error when no row has it; so it is a
  total function of the table. Calling it a second time on the same id leaves the table
  exactly as the first call left it, the entry (when there is one) has \<open>processed = 1\<close>,
  and no \<open>fetchPending\<close>, for any queue name and any limit, returns that id.
\<close>

theorem markProcessed_idempotent:
  "markProcessed i (markProcessed i q) = markProcessed i q
   \<and> entry i (markProcessed i (markProcessed i q)) = map_option row_processed (entry i q)
   \<and> map_option processed (entry i (markProcessed i (markProcessed i q))) = map_option (\<lambda>r. 1) (entry i q)
   \<and> (\<forall>name limit. i \<notin> sel_id ` set (fst (fetchPending name limit (markProcessed i (markProcessed i q)))))"
  by (simp add: markProcessed_twice entry_markProcessed not_fetched_after_markProcessed
      option.map_comp comp_def) (simp add: row_processed_def)


section \<open>Properties of the queue processor\<close>

subsection \<open>What a tick does to the entries it does not handle\<close>

lemma invalid_structure_not_null:
  "v \<noteq> JNull \<Longrightarrow> invalid_structure v = Inr (lacks_marker v)"
  by (cases v) (auto simp: invalid_structure_def read_member_def member_def lacks_marker_def)

lemma invalid_structure_null:
  "invalid_structure JNull = Inl (Error ''Cannot read properties of null (reading 'operation')'')"
  by (simp add: invalid_structure_def read_member_def)

lemma entry_markFailed_other: "i \<noteq> j \<Longrightarrow> entry i (markFailed j msg q) = entry i q"
  by (cases "entry i q") (simp_all add: entry_markFailed)

lemma entry_markProcessed_other: "i \<noteq> j \<Longrightarrow> entry i (markProcessed j q) = entry i q"
  by (cases "entry i q") (simp_all add: entry_markProcessed)

lemma record_outcome_other:
  "i \<noteq> j \<Longrightarrow> entry i (record_outcome j outcome q) = entry i q"
  by (simp add: record_outcome_def entry_markFailed_other entry_markProcessed_other
      split: sum.splits)

lemma dispatch_row_other:
  "i \<noteq> sel_id row \<Longrightarrow> entry i (fst (dispatch_row fetch p row st)) = entry i (fst st)"
  by (simp add: dispatch_row_def Let_def record_outcome_other)

lemma dispatch_row_log:
  "fst ` set (snd (dispatch_row fetch p row st)) = insert (sel_id row) (fst ` set (snd st))"
  by (simp add: dispatch_row_def Let_def)

lemma process_row_other:
  assumes "i \<noteq> sel_id row"
  shows "entry i (fst (process_row parse fetch p row st)) = entry i (fst st)"
    and "i \<in> fst ` set (snd (process_row parse fetch p row st)) \<longleftrightarrow> i \<in> fst ` set (snd st)"
  using assms
  by (simp_all add: process_row_def entry_markFailed_other dispatch_row_other dispatch_row_log
      split: sum.splits bool.splits)

lemma fold_process_row_other:
  "i \<notin> sel_id ` set pending \<Longrightarrow>
     entry i (fst (fold (process_row parse fetch p) pending st)) = entry i (fst st)
     \<and> (i \<in> fst ` set (snd (fold (process_row parse fetch p) pending st)) \<longleftrightarrow> i \<in> fst ` set (snd st))"
proof (induction pending arbitrary: st)
  case Nil
  show ?case by simp
next
  case (Cons row pending)
  then have ne: "i \<noteq> sel_id row" and rest: "i \<notin> sel_id ` set pending" by auto
  from Cons.IH[OF rest, of "process_row parse fetch p row st"] process_row_other[OF ne, of parse fetch p st]
  show ?case by simp
qed

lemma process_row_invalid:
  assumes "parse (sel_message row) = Inr v" "v \<noteq> JNull" "lacks_marker v"
  shows "process_row parse fetch p row st
     = (markFailed (sel_id row) ''Invalid message format'' (fst st), snd st)"
  using assms by (simp add: process_row_def invalid_structure_not_null)

lemma fold_process_row_invalid:
  assumes v: "parse (sel_message row) = Inr v" "v \<noteq> JNull" "lacks_marker v"
  shows "distinct (map sel_id pending) \<Longrightarrow> row \<in> set pending \<Longrightarrow>
     entry (sel_id row) (fst (fold (process_row parse fetch p) pending st))
       = map_option (row_failed ''Invalid message format'') (entry (sel_id row) (fst st))
     \<and> (sel_id row \<in> fst ` set (snd (fold (process_row parse fetch p) pending st))
          \<longleftrightarrow> sel_id row \<in> fst ` set (snd st))"
proof (induction pending arbitrary: st)
  case Nil
  then show ?case by simp
next
  case (Cons x pending)
  show ?case
  proof (cases "x = row")
    case True
    with Cons.prems have notin: "sel_id row \<notin> sel_id ` set pending" by auto
    let ?st1 = "(markFailed (sel_id row) ''Invalid message format'' (fst st), snd st)"
    have step: "process_row parse fetch p row st = ?st1"
      by (rule process_row_invalid[where parse=parse and row=row and v=v, OF v])
    from fold_process_row_other[OF notin, of parse fetch p ?st1] True step
    show ?thesis by (simp add: entry_markFailed)
  next
    case False
    with Cons.prems have inr: "row \<in> set pending" and d: "distinct (map sel_id pending)"
      and nx: "sel_id x \<notin> sel_id ` set pending"
      by auto
    from inr nx have ne: "sel_id row \<noteq> sel_id x"
      by (metis imageI)
    from Cons.IH[OF d inr, of "process_row parse fetch p x st"]
      process_row_other[OF ne, of parse fetch p st]
    show ?thesis by simp
  qed
qed

lemma distinct_fetched:
  "distinct (map row_id (rows q)) \<Longrightarrow> distinct (map sel_id (fst (fetchPending name limit q)))"
  unfolding fetchPending_ids by (rule distinct_sql_limit) (rule distinct_pending_rows)

lemma processPendingMessages_unfold:
  "processPendingMessages parse fetch p q
     = (if length (fst (fetchPending ''DP1_WRITE_QUEUE'' (Some 10) q)) = 0 then (q, [])
        else fold (process_row parse fetch p) (fst (fetchPending ''DP1_WRITE_QUEUE'' (Some 10) q)) (q, []))"
  by (simp add: processPendingMessages_def fetchPending_def)

subsection \<open>Messages of the wrong shape\<close>

text \<open>
  During a tick, every fetched entry whose message parses to a value other than
  \<^verbatim>\<open>null\<close> and lacks one of the three markers is failed once with the reason
  \<^verbatim>\<open>Invalid message format\<close>, through \<open>markFailed\<close> and so through the attempts
  counter, and no request is made for it.
\<close>

lemma invalid_message_marked_failed:
  assumes d: "distinct (map row_id (rows q))"
    and f: "row \<in> set (fst (fetchPending ''DP1_WRITE_QUEUE'' (Some 10) q))"
    and v: "parse (sel_message row) = Inr v" "v \<noteq> JNull" "lacks_marker v"
  shows "\<exists>r. entry (sel_id row) q = Some r
           \<and> entry (sel_id row) (fst (processPendingMessages parse fetch p q))
               = Some (row_failed ''Invalid message format'' r)
           \<and> sel_id row \<notin> fst ` set (snd (processPendingMessages parse fetch p q))"
proof -
  let ?pending = "fst (fetchPending ''DP1_WRITE_QUEUE'' (Some 10) q)"
  from fetched_from_pending[OF f] obtain r where r: "r \<in> set (rows q)" "row = select_cols r"
    by blast
  then have id: "sel_id row = row_id r" by (simp add: select_cols_def)
  from entry_distinct[OF d r(1)] id have e: "entry (sel_id row) q = Some r" by simp
  from f have ne: "length ?pending \<noteq> 0" by auto
  have tick: "processPendingMessages parse fetch p q = fold (process_row parse fetch p) ?pending (q, [])"
    using ne by (simp add: processPendingMessages_unfold)
  from fold_process_row_invalid[where parse=parse and row=row and v=v and pending="?pending"
      and fetch=fetch and p=p and st="(q, [])", OF v distinct_fetched[OF d] f] e
  show ?thesis by (simp add: tick)
qed

text \<open>
  The scenario of the specification: after one tick the entry with the message
  \<^verbatim>\<open>{"incomplete":true}\<close> is pending with \<open>attempts = 1\<close> and the reason
  \<^verbatim>\<open>Invalid message format\<close>, and no request was made.
\<close>

lemma incomplete_message_scenario:
  "processPendingMessages demo_parse demo_endpoint demo_provider
     (stmtInsert_run 0 ''DP1_WRITE_QUEUE'' ''{\"incomplete\":true}'' empty_queue)
   = (\<lparr>rows = [\<lparr>row_id = 1, queue_name = ''DP1_WRITE_QUEUE'', message = ''{\"incomplete\":true}'',
                 created_at = 0, processed = 0, attempts = 1, max_attempts = 3,
                 last_error = Some ''Invalid message format''\<rparr>],
        seq = 1\<rparr>, [])"
proof -
  let ?q = "stmtInsert_run 0 ''DP1_WRITE_QUEUE'' ''{\"incomplete\":true}'' empty_queue"
  have f: "fst (fetchPending ''DP1_WRITE_QUEUE'' (Some 10) ?q)
       = [\<lparr>sel_id = 1, sel_message = ''{\"incomplete\":true}'', sel_attempts = 0\<rparr>]"
    by (simp add: fetchPending_def stmtFetch_all_def sql_limit_def pending_rows_def
        select_cols_def stmtInsert_run_def empty_queue_def)
  have v: "demo_parse ''{\"incomplete\":true}'' = Inr (JObject [(''incomplete'', JBool True)])"
    by (simp add: demo_parse_def)
  have l: "lacks_marker (JObject [(''incomplete'', JBool True)])"
    by (simp add: lacks_marker_def member_def)
  have "process_row demo_parse demo_endpoint demo_provider
          \<lparr>sel_id = 1, sel_message = ''{\"incomplete\":true}'', sel_attempts = 0\<rparr> (?q, [])
      = (markFailed 1 ''Invalid message format'' ?q, [])"
    using process_row_invalid[where parse=demo_parse
        and row="\<lparr>sel_id = 1, sel_message = ''{\"incomplete\":true}'', sel_attempts = 0\<rparr>"
        and v="JObject [(''incomplete'', JBool True)]" and st="(?q, [])"] v l
    by simp
  then have "processPendingMessages demo_parse demo_endpoint demo_provider ?q
      = (markFailed 1 ''Invalid message format'' ?q, [])"
    by (simp add: processPendingMessages_unfold f)
  then show ?thesis
    by (simp add: markFailed_def stmtMarkFailed_run_def row_failed_def stmtInsert_run_def empty_queue_def)
qed

text \<open>
  Claim C9 at the message \<^verbatim>\<open>null\<close>, which \<^verbatim>\<open>send(null)\<close> enqueues. It parses, to
  \<^verbatim>\<open>null\<close>, and has none of the markers; reading its \<^verbatim>\<open>operation\<close> throws, the
  \<^verbatim>\<open>catch\<close> fails the entry with the message of the \<^verbatim>\<open>TypeError\<close>, and the reason
  recorded is not \<^verbatim>\<open>Invalid message format\<close>. The rest is as the claim says: no
  request is made and \<open>attempts\<close> is 1 after the tick.
\<close>

theorem null_message_failure_reason:
  "parse ''null'' = Inr JNull \<longrightarrow>
     fst (fetchPending ''DP1_WRITE_QUEUE'' (Some 10)
            (stmtInsert_run now ''DP1_WRITE_QUEUE'' ''null'' empty_queue))
       = [\<lparr>sel_id = 1, sel_message = ''null'', sel_attempts = 0\<rparr>]
   \<and> processPendingMessages parse fetch p
        (stmtInsert_run now ''DP1_WRITE_QUEUE'' ''null'' empty_queue)
       = (\<lparr>rows = [\<lparr>row_id = 1, queue_name = ''DP1_WRITE_QUEUE'', message = ''null'',
                     created_at = now, processed = 0, attempts = 1, max_attempts = 3,
                     last_error = Some ''Cannot read properties of null (reading 'operation')''\<rparr>],
           seq = 1\<rparr>, [])
   \<and> map_option last_error (entry 1 (fst (processPendingMessages parse fetch p
        (stmtInsert_run now ''DP1_WRITE_QUEUE'' ''null'' empty_queue))))
       \<noteq> Some (Some ''Invalid message format'')"
proof
  assume p: "parse ''null'' = Inr JNull"
  let ?q = "stmtInsert_run now ''DP1_WRITE_QUEUE'' ''null'' empty_queue"
  have f: "fst (fetchPending ''DP1_WRITE_QUEUE'' (Some 10) ?q)
       = [\<lparr>sel_id = 1, sel_message = ''null'', sel_attempts = 0\<rparr>]"
    by (simp add: fetchPending_def stmtFetch_all_def sql_limit_def pending_rows_def
        select_cols_def stmtInsert_run_def empty_queue_def)
  have row: "process_row parse fetch p \<lparr>sel_id = 1, sel_message = ''null'', sel_attempts = 0\<rparr> (?q, [])
      = (markFailed 1 ''Cannot read properties of null (reading 'operation')'' ?q, [])"
    using p by (simp add: process_row_def invalid_structure_null)
  have tick: "processPendingMessages parse fetch p ?q
      = (markFailed 1 ''Cannot read properties of null (reading 'operation')'' ?q, [])"
    using row by (simp add: processPendingMessages_unfold f)
  have q': "markFailed 1 ''Cannot read properties of null (reading 'operation')'' ?q
      = \<lparr>rows = [\<lparr>row_id = 1, queue_name = ''DP1_WRITE_QUEUE'', message = ''null'',
                     created_at = now, processed = 0, attempts = 1, max_attempts = 3,
                     last_error = Some ''Cannot read properties of null (reading 'operation')''\<rparr>],
           seq = 1\<rparr>"
    by (simp add: markFailed_def stmtMarkFailed_run_def row_failed_def stmtInsert_run_def empty_queue_def)
  show "fst (fetchPending ''DP1_WRITE_QUEUE'' (Some 10) ?q)
       = [\<lparr>sel_id = 1, sel_message = ''null'', sel_attempts = 0\<rparr>]
   \<and> processPendingMessages parse fetch p ?q
       = (\<lparr>rows = [\<lparr>row_id = 1, queue_name = ''DP1_WRITE_QUEUE'', message = ''null'',
                     created_at = now, processed = 0, attempts = 1, max_attempts = 3,
                     last_error = Some ''Cannot read properties of null (reading 'operation')''\<rparr>],
           seq = 1\<rparr>, [])
   \<and> map_option last_error (entry 1 (fst (processPendingMessages parse fetch p ?q)))
       \<noteq> Some (Some ''Invalid message format'')"
    using f by (simp add: tick q' entry_def)
qed

theorem null_message_failure_reason_witness:
  "demo_parse ''null'' = Inr JNull
   \<and> map_option last_error (entry 1 (fst (processPendingMessages demo_parse demo_endpoint demo_provider
        (stmtInsert_run 0 ''DP1_WRITE_QUEUE'' ''null'' empty_queue))))
       \<noteq> Some (Some ''Invalid message format'')
   \<and> snd (processPendingMessages demo_parse demo_endpoint demo_provider
        (stmtInsert_run 0 ''DP1_WRITE_QUEUE'' ''null'' empty_queue)) = []"
proof -
  have p: "demo_parse ''null'' = Inr JNull" by (simp add: demo_parse_def)
  from null_message_failure_reason[of demo_parse 0 demo_endpoint demo_provider, rule_format, OF p]
  show ?thesis using p by simp
qed

section \<open>Properties of the key-value storage\<close>

subsection \<open>Patterns and listing\<close>

lemma like_percent_all: "sql_like ''%'' k"
  by (induction k) simp_all

lemma like_percent_skip: "sql_like pat s \<Longrightarrow> sql_like (CHR ''%'' # pat) (xs @ s)"
proof (induction xs)
  case Nil
  then show ?case by (cases s) simp_all
next
  case (Cons x xs)
  then show ?case by simp
qed

lemma like_literal_prefix: "sql_like (p @ ''%'') (p @ s)"
proof (induction p)
  case Nil
  show ?case using like_percent_all by simp
next
  case (Cons c p)
  show ?case
  proof (cases "c = CHR ''%''")
    case True
    from like_percent_skip[OF Cons.IH, of "[c]"] True show ?thesis by simp
  next
    case False
    with Cons.IH show ?thesis by simp
  qed
qed

lemma sort_key_eq_Nil: "(sort_key f xs = []) = (xs = [])"
  by (metis length_0_conv length_sort)

lemma list_keys_eval:
  assumes "tables db tn = Some t"
  shows "list_keys tn options db =
     (let prefix = (case opt_prefix options of None \<Rightarrow> [] | Some p \<Rightarrow> p);
          limit = (case opt_limit options of None \<Rightarrow> 1000 | Some n \<Rightarrow> if n = 0 then 1000 else n);
          after = (case opt_cursor options of None \<Rightarrow> None | Some c \<Rightarrow> if c = [] then None else Some c);
          found = sql_limit limit (sort (filter
                 (\<lambda>k. sql_like (prefix @ ''%'') k \<and> (case after of None \<Rightarrow> True | Some c \<Rightarrow> c < k))
                 (map fst t)))
      in Inr \<lparr>keys = found, list_complete = (int (length found) \<noteq> limit),
               cursor = (if int (length found) = limit \<and> length found > 0 then Some (last found) else None)\<rparr>)"
  using assms by (simp add: list_keys_def select_keys_def Let_def)

text \<open>
  Claim C10. A limit of 0 is falsy, so \<open>list\<close> replaces it, as it does an absent
  limit, by 1000: both calls are the call with limit 1000. An empty prefix is the absent
  prefix, and its pattern \<^verbatim>\<open>%\<close> matches every key. So a call with limit 0 and an empty
  prefix on an existing table returns the first 1000 keys in ascending order.
\<close>

theorem list_falsy_defaults:
  "list_keys tn \<lparr>opt_prefix = p, opt_limit = Some 0, opt_cursor = c\<rparr> db
     = list_keys tn \<lparr>opt_prefix = p, opt_limit = Some 1000, opt_cursor = c\<rparr> db
   \<and> list_keys tn \<lparr>opt_prefix = p, opt_limit = None, opt_cursor = c\<rparr> db
     = list_keys tn \<lparr>opt_prefix = p, opt_limit = Some 1000, opt_cursor = c\<rparr> db
   \<and> list_keys tn \<lparr>opt_prefix = Some [], opt_limit = l, opt_cursor = c\<rparr> db
     = list_keys tn \<lparr>opt_prefix = None, opt_limit = l, opt_cursor = c\<rparr> db
   \<and> sql_like ([] @ ''%'') k
   \<and> (tables db tn = Some t \<longrightarrow>
        list_keys tn \<lparr>opt_prefix = Some [], opt_limit = Some 0, opt_cursor = None\<rparr> db
          = Inr \<lparr>keys = take 1000 (sort (map fst t)),
                 list_complete = (length (take 1000 (sort (map fst t))) \<noteq> 1000),
                 cursor = (if length (take 1000 (sort (map fst t))) = 1000
                           then Some (last (take 1000 (sort (map fst t)))) else None)\<rparr>)"
proof (intro conjI impI)
  show "list_keys tn \<lparr>opt_prefix = p, opt_limit = Some 0, opt_cursor = c\<rparr> db
     = list_keys tn \<lparr>opt_prefix = p, opt_limit = Some 1000, opt_cursor = c\<rparr> db"
    by (simp add: list_keys_def)
  show "list_keys tn \<lparr>opt_prefix = p, opt_limit = None, opt_cursor = c\<rparr> db
     = list_keys tn \<lparr>opt_prefix = p, opt_limit = Some 1000, opt_cursor = c\<rparr> db"
    by (simp add: list_keys_def)
  show "list_keys tn \<lparr>opt_prefix = Some [], opt_limit = l, opt_cursor = c\<rparr> db
     = list_keys tn \<lparr>opt_prefix = None, opt_limit = l, opt_cursor = c\<rparr> db"
    by (simp add: list_keys_def)
  show "sql_like ([] @ ''%'') k" using like_percent_all by simp
  assume t: "tables db tn = Some t"
  show "list_keys tn \<lparr>opt_prefix = Some [], opt_limit = Some 0, opt_cursor = None\<rparr> db
          = Inr \<lparr>keys = take 1000 (sort (map fst t)),
                 list_complete = (length (take 1000 (sort (map fst t))) \<noteq> 1000),
                 cursor = (if length (take 1000 (sort (map fst t))) = 1000
                           then Some (last (take 1000 (sort (map fst t)))) else None)\<rparr>"
    unfolding list_keys_eval[OF t] by (auto simp add: Let_def sql_limit_def like_percent_all comp_def sort_key_eq_Nil)
qed

theorem list_falsy_defaults_witness:
  "tables (one_table ''test_table'' [(''key2'', ''b''), (''key1'', ''a'')] []) ''test_table''
      = Some [(''key2'', ''b''), (''key1'', ''a'')]
   \<and> list_keys ''test_table'' \<lparr>opt_prefix = Some [], opt_limit = Some 0, opt_cursor = None\<rparr>
        (one_table ''test_table'' [(''key2'', ''b''), (''key1'', ''a'')] [])
      = Inr \<lparr>keys = [''key1'', ''key2''], list_complete = True, cursor = None\<rparr>"
proof -
  have t: "tables (one_table ''test_table'' [(''key2'', ''b''), (''key1'', ''a'')] []) ''test_table''
      = Some [(''key2'', ''b''), (''key1'', ''a'')]"
    by (simp add: one_table_def)
  from list_falsy_defaults[THEN conjunct2, THEN conjunct2, THEN conjunct2, THEN conjunct2, rule_format, OF t]
  have "list_keys ''test_table'' \<lparr>opt_prefix = Some [], opt_limit = Some 0, opt_cursor = None\<rparr>
        (one_table ''test_table'' [(''key2'', ''b''), (''key1'', ''a'')] [])
      = Inr \<lparr>keys = [''key1'', ''key2''], list_complete = True, cursor = None\<rparr>"
    by simp
  with t show ?thesis by simp
qed

text \<open>
  Claim C4 at two inputs. The prefix goes into a LIKE pattern as it is, so its own
  \<^verbatim>\<open>_\<close> and \<^verbatim>\<open>%\<close> are wildcards and its letters match either case: the prefix
  \<^verbatim>\<open>a_\<close> lists the key \<^verbatim>\<open>abc\<close>, and the prefix \<^verbatim>\<open>test-\<close> lists the key
  \<^verbatim>\<open>TEST-1\<close>, of neither of which it is a prefix.
\<close>

theorem list_prefix_wildcards:
  "list_keys ''test_table'' \<lparr>opt_prefix = Some ''a_'', opt_limit = None, opt_cursor = None\<rparr>
        (one_table ''test_table'' [(''abc'', ''1''), (''a_c'', ''2''), (''b'', ''3'')] [])
     = Inr \<lparr>keys = [''a_c'', ''abc''], list_complete = True, cursor = None\<rparr>
   \<and> list_keys ''test_table'' \<lparr>opt_prefix = Some ''test-'', opt_limit = None, opt_cursor = None\<rparr>
        (one_table ''test_table'' [(''TEST-1'', ''1''), (''test-2'', ''2'')] [])
     = Inr \<lparr>keys = [''TEST-1'', ''test-2''], list_complete = True, cursor = None\<rparr>"
  by (simp add: list_keys_def select_keys_def one_table_def sql_limit_def ascii_upper_def)

subsection \<open>Reading what was written\<close>

lemma next_fault_no_faults:
  "filter (\<lambda>f. f \<noteq> None) fs = [] \<Longrightarrow>
     fst (next_fault fs) = None \<and> filter (\<lambda>f. f \<noteq> None) (snd (next_fault fs)) = []"
  by (cases fs) (auto split: if_splits)

lemma run_write_ok:
  assumes "no_faults db" "tables db tn = Some t"
  shows "fst (run_write tn change db) = Inr ()"
    and "tables (snd (run_write tn change db)) = (tables db)(tn \<mapsto> change t)"
    and "no_faults (snd (run_write tn change db))"
  using assms next_fault_no_faults[of "faults db"]
  by (simp_all add: run_write_def no_faults_def Let_def)

lemma run_write_missing:
  assumes "no_faults db" "tables db tn = None"
  shows "tables (snd (run_write tn change db)) = tables db"
    and "no_faults (snd (run_write tn change db))"
  using assms next_fault_no_faults[of "faults db"]
  by (simp_all add: run_write_def no_faults_def Let_def)

lemma run_write_tables:
  assumes "no_faults db"
  shows "tables (snd (run_write tn change db))
           = (case tables db tn of None \<Rightarrow> tables db | Some t \<Rightarrow> (tables db)(tn \<mapsto> change t))"
    and "no_faults (snd (run_write tn change db))"
proof -
  show "tables (snd (run_write tn change db))
           = (case tables db tn of None \<Rightarrow> tables db | Some t \<Rightarrow> (tables db)(tn \<mapsto> change t))"
    using run_write_ok(2)[OF assms] run_write_missing(1)[OF assms]
    by (cases "tables db tn") simp_all
  show "no_faults (snd (run_write tn change db))"
    using run_write_ok(3)[OF assms] run_write_missing(2)[OF assms]
    by (cases "tables db tn") simp_all
qed

lemma map_of_upsert:
  "map_of (insert_or_replace k v t) k' = (if k' = k then Some v else map_of t k')"
  unfolding insert_or_replace_def by (induction t) auto

lemma map_of_remove:
  "map_of (delete_where k t) k' = (if k' = k then None else map_of t k')"
  unfolding delete_where_def by (induction t) auto

lemma run_kv_call_effect:
  assumes nf: "no_faults db" and t: "tables db ns = Some t"
  shows "\<exists>t'. tables (run_kv_call c db) ns = Some t'
            \<and> map_of t' k = latest_put (map_of t k) ns k [c]
            \<and> no_faults (run_kv_call c db)"
proof (cases c)
  case (Put ns' k' v)
  show ?thesis
  proof (cases "ns' = ns")
    case True
    with Put t run_write_ok[OF nf t] show ?thesis
      by (simp add: put_def stmtPut_run_def map_of_upsert)
  next
    case False
    with Put t run_write_tables[OF nf, of ns'] show ?thesis
      by (simp add: put_def stmtPut_run_def split: option.splits)
  qed
next
  case (Delete ns' k')
  show ?thesis
  proof (cases "ns' = ns")
    case True
    with Delete t run_write_ok[OF nf t] show ?thesis
      by (simp add: delete_def stmtDelete_run_def map_of_remove)
  next
    case False
    with Delete t run_write_tables[OF nf, of ns'] show ?thesis
      by (simp add: delete_def stmtDelete_run_def split: option.splits)
  qed
qed

lemma latest_put_cons:
  "latest_put before ns k (c # earlier) = latest_put (latest_put before ns k earlier) ns k [c]"
  by (cases c) simp_all

lemma run_kv_calls_effect:
  assumes nf: "no_faults db" and t: "tables db ns = Some t"
  shows "\<exists>t'. tables (run_kv_calls calls db) ns = Some t'
            \<and> map_of t' k = latest_put (map_of t k) ns k (rev calls)
            \<and> no_faults (run_kv_calls calls db)"
proof (induction calls rule: rev_induct)
  case Nil
  with nf t show ?case by (simp add: run_kv_calls_def)
next
  case (snoc c calls)
  then obtain t1 where t1: "tables (run_kv_calls calls db) ns = Some t1"
      "map_of t1 k = latest_put (map_of t k) ns k (rev calls)"
      "no_faults (run_kv_calls calls db)"
    by blast
  from run_kv_call_effect[OF t1(3) t1(1), of c k] obtain t' where
    "tables (run_kv_call c (run_kv_calls calls db)) ns = Some t'"
    "map_of t' k = latest_put (map_of t1 k) ns k [c]"
    "no_faults (run_kv_call c (run_kv_calls calls db))"
    by blast
  then show ?case
    using t1(2) latest_put_cons[of "map_of t k" ns k c "rev calls"]
    by (simp add: run_kv_calls_def)
qed

text \<open>
  Claim C7. On a working storage, after any history of \<open>put\<close> and \<open>delete\<close> calls on
  any namespaces, \<open>get\<close> of a key of a namespace that exists returns the value of the
  most recent \<open>put\<close> of that key on that namespace, absence when a \<open>delete\<close> of it on
  that namespace came later, and otherwise what the table held before: absence for a
  table that was empty. Calls on other keys and on other namespaces, with the same key or
  not, make no difference.
\<close>

theorem get_returns_latest_put:
  "no_faults db \<and> tables db ns = Some t \<longrightarrow>
     get parse ns k False (run_kv_calls calls db)
       = Inr (map_option Text (latest_put (map_of t k) ns k (rev calls)))
   \<and> (t = [] \<longrightarrow>
        get parse ns k False (run_kv_calls calls db)
          = Inr (map_option Text (latest_put None ns k (rev calls))))"
proof
  assume a: "no_faults db \<and> tables db ns = Some t"
  then obtain t' where t': "tables (run_kv_calls calls db) ns = Some t'"
      "map_of t' k = latest_put (map_of t k) ns k (rev calls)"
    using run_kv_calls_effect[of db ns t calls k] by blast
  have g: "get parse ns k False (run_kv_calls calls db)
       = Inr (map_option Text (latest_put (map_of t k) ns k (rev calls)))"
    using t' by (cases "latest_put (map_of t k) ns k (rev calls)")
      (simp_all add: get_def stmtGet_get_def)
  show "get parse ns k False (run_kv_calls calls db)
       = Inr (map_option Text (latest_put (map_of t k) ns k (rev calls)))
   \<and> (t = [] \<longrightarrow>
        get parse ns k False (run_kv_calls calls db)
          = Inr (map_option Text (latest_put None ns k (rev calls))))"
    using g by auto
qed

theorem get_returns_latest_put_witness:
  "no_faults SqliteStorageProvider \<and> tables SqliteStorageProvider ''playlists'' = Some []
   \<and> get (\<lambda>s. Inl []) ''playlists'' ''k'' False
        (run_kv_calls [Put ''playlists'' ''k'' ''v1'', Put ''channels'' ''k'' ''other'',
                       Put ''playlists'' ''k'' ''v2'', Delete ''channels'' ''k'']
           SqliteStorageProvider)
       = Inr (Some (Text ''v2''))
   \<and> get (\<lambda>s. Inl []) ''channels'' ''k'' False
        (run_kv_calls [Put ''playlists'' ''k'' ''v1'', Put ''channels'' ''k'' ''other'',
                       Put ''playlists'' ''k'' ''v2'', Delete ''channels'' ''k'']
           SqliteStorageProvider)
       = Inr None"
proof -
  have nf: "no_faults SqliteStorageProvider"
    by (simp add: no_faults_def SqliteStorageProvider_def create_table_def new_database_def)
  have p: "tables SqliteStorageProvider ''playlists'' = Some []"
    by (simp add: SqliteStorageProvider_def create_table_def new_database_def)
  have c: "tables SqliteStorageProvider ''channels'' = Some []"
    by (simp add: SqliteStorageProvider_def create_table_def new_database_def)
  from get_returns_latest_put[rule_format, OF conjI[OF nf p], THEN conjunct1,
      of "\<lambda>s. Inl []" "''k''" "[Put ''playlists'' ''k'' ''v1'', Put ''channels'' ''k'' ''other'',
                       Put ''playlists'' ''k'' ''v2'', Delete ''channels'' ''k'']"]
  have 1: "get (\<lambda>s. Inl []) ''playlists'' ''k'' False
        (run_kv_calls [Put ''playlists'' ''k'' ''v1'', Put ''channels'' ''k'' ''other'',
                       Put ''playlists'' ''k'' ''v2'', Delete ''channels'' ''k'']
           SqliteStorageProvider)
       = Inr (Some (Text ''v2''))"
    by simp
  from get_returns_latest_put[rule_format, OF conjI[OF nf c], THEN conjunct1,
      of "\<lambda>s. Inl []" "''k''" "[Put ''playlists'' ''k'' ''v1'', Put ''channels'' ''k'' ''other'',
                       Put ''playlists'' ''k'' ''v2'', Delete ''channels'' ''k'']"]
  have 2: "get (\<lambda>s. Inl []) ''channels'' ''k'' False
        (run_kv_calls [Put ''playlists'' ''k'' ''v1'', Put ''channels'' ''k'' ''other'',
                       Put ''playlists'' ''k'' ''v2'', Delete ''channels'' ''k'']
           SqliteStorageProvider)
       = Inr None"
    by simp
  from nf p 1 2 show ?thesis by simp
qed

subsection \<open>Batches\<close>

lemma put_items_write_all:
  "put_items tn items db = write_all tn (map (\<lambda>item. insert_or_replace (fst item) (snd item)) items) db"
  by (induction items arbitrary: db) (simp_all add: stmtPut_run_def split: prod.splits sum.splits)

lemma delete_keys_write_all:
  "delete_keys tn ks db = write_all tn (map delete_where ks) db"
  by (induction ks arbitrary: db) (simp_all add: stmtDelete_run_def split: prod.splits sum.splits)

lemma run_write_succeeds:
  assumes "tables db tn = Some t" "fst (next_fault (faults db)) = None"
  shows "run_write tn change db
     = (Inr (), db\<lparr>faults := snd (next_fault (faults db)), tables := (tables db)(tn \<mapsto> change t)\<rparr>)"
  using assms by (simp add: run_write_def Let_def)

lemma run_write_fails:
  assumes "tables db tn = None \<or> fst (next_fault (faults db)) \<noteq> None"
  shows "\<exists>e. run_write tn change db = (Inl e, db\<lparr>faults := snd (next_fault (faults db))\<rparr>)"
  using assms by (auto simp add: run_write_def Let_def split: option.splits)

lemma run_write_keeps_on_error:
  "fst (run_write tn change db) = Inl e \<Longrightarrow> tables (snd (run_write tn change db)) = tables db"
  by (auto simp add: run_write_def Let_def split: option.splits)

lemma batch_fails_Suc:
  "batch_fails db tn (Suc n) \<longleftrightarrow>
     tables db tn = None \<or> fst (next_fault (faults db)) \<noteq> None
       \<or> filter (\<lambda>f. f \<noteq> None) (take n (snd (next_fault (faults db)))) \<noteq> []"
  by (cases "faults db") (auto simp: batch_fails_def)

lemma batch_fails_0: "batch_fails db tn 0 \<longleftrightarrow> tables db tn = None"
  by (simp add: batch_fails_def)

lemma write_all_ok:
  "tables db tn = Some t \<Longrightarrow> \<not> batch_fails db tn (length changes) \<Longrightarrow>
     fst (write_all tn changes db) = Inr ()
     \<and> tables (snd (write_all tn changes db)) = (tables db)(tn \<mapsto> foldl (\<lambda>t change. change t) t changes)"
proof (induction changes arbitrary: db t)
  case Nil
  then show ?case by (simp add: fun_upd_idem)
next
  case (Cons change changes)
  let ?db1 = "db\<lparr>faults := snd (next_fault (faults db)), tables := (tables db)(tn \<mapsto> change t)\<rparr>"
  from Cons.prems have nf: "fst (next_fault (faults db)) = None"
    and rest: "filter (\<lambda>f. f \<noteq> None) (take (length changes) (snd (next_fault (faults db)))) = []"
    by (simp_all add: batch_fails_Suc)
  have step: "run_write tn change db = (Inr (), ?db1)"
    by (rule run_write_succeeds[OF Cons.prems(1) nf])
  have t1: "tables ?db1 tn = Some (change t)" by simp
  have ok1: "\<not> batch_fails ?db1 tn (length changes)"
    using rest by (simp add: batch_fails_def)
  from Cons.IH[OF t1 ok1] show ?case
    by (simp add: step fun_eq_iff)
qed

lemma write_all_fails:
  "changes \<noteq> [] \<Longrightarrow> batch_fails db tn (length changes) \<Longrightarrow>
     \<exists>e. fst (write_all tn changes db) = Inl e"
proof (induction changes arbitrary: db)
  case Nil
  then show ?case by simp
next
  case (Cons change changes)
  show ?case
  proof (cases "tables db tn = None \<or> fst (next_fault (faults db)) \<noteq> None")
    case True
    from run_write_fails[OF True, of change] show ?thesis by auto
  next
    case False
    then obtain t where t: "tables db tn = Some t" and nf: "fst (next_fault (faults db)) = None"
      by auto
    let ?db1 = "db\<lparr>faults := snd (next_fault (faults db)), tables := (tables db)(tn \<mapsto> change t)\<rparr>"
    have step: "run_write tn change db = (Inr (), ?db1)"
      by (rule run_write_succeeds[OF t nf])
    from Cons.prems(2) t nf
    have rest: "filter (\<lambda>f. f \<noteq> None) (take (length changes) (snd (next_fault (faults db)))) \<noteq> []"
      by (auto simp add: batch_fails_Suc)
    then have ne: "changes \<noteq> []" by auto
    have "batch_fails ?db1 tn (length changes)"
      using rest by (simp add: batch_fails_def)
    from Cons.IH[OF ne this] show ?thesis by (simp add: step)
  qed
qed

lemma transaction_result:
  "fst (transaction fn arg db) = fst (fn arg db)"
  "fst (fn arg db) = Inr u \<Longrightarrow> snd (transaction fn arg db) = snd (fn arg db)"
  "fst (fn arg db) = Inl e \<Longrightarrow> tables (snd (transaction fn arg db)) = tables db"
  by (auto simp: transaction_def split: prod.splits sum.splits)

lemma map_of_upserts:
  "map_of (foldl (\<lambda>t change. change t) t (map (\<lambda>item. insert_or_replace (fst item) (snd item)) items)) k
     = (case map_of (rev items) k of None \<Rightarrow> map_of t k | Some v \<Rightarrow> Some v)"
  by (induction items rule: rev_induct) (auto simp: map_of_upsert)

lemma map_of_deletes:
  "map_of (foldl (\<lambda>t change. change t) t (map delete_where ks)) k
     = (if k \<in> set ks then None else map_of t k)"
  by (induction ks rule: rev_induct) (auto simp: map_of_remove)

lemma map_of_rev_in_keys:
  "k \<in> fst ` set items \<Longrightarrow> \<exists>v. map_of (rev items) k = Some v"
  by (metis domD dom_map_of_conv_image_fst set_rev)

lemma map_of_rev_distinct:
  "distinct (map fst items) \<Longrightarrow> (k, v) \<in> set items \<Longrightarrow> map_of (rev items) k = Some v"
  by (rule map_of_is_SomeI) (simp_all add: rev_map[symmetric])

lemma get_tables_cong:
  "tables db1 = tables db2 \<Longrightarrow> get parse tn k as_json db1 = get parse tn k as_json db2"
  by (simp add: get_def stmtGet_get_def)

lemma get_text:
  "tables db tn = Some t \<Longrightarrow> get parse tn k False db = Inr (map_option Text (map_of t k))"
  by (cases "map_of t k") (simp_all add: get_def stmtGet_get_def)

lemma get_absent:
  "tables db tn = Some t \<Longrightarrow> map_of t k = None \<Longrightarrow> get parse tn k as_json db = Inr None"
  by (simp add: get_def stmtGet_get_def)

lemma length_one: "length xs = 1 \<Longrightarrow> xs = [hd xs]"
  by (cases xs) simp_all

lemma putMultiple_success:
  assumes ne: "entries \<noteq> []" and ok: "\<not> batch_fails db tn (length entries)"
  shows "fst (putMultiple tn entries db) = Inr []
     \<and> (\<exists>t t'. tables db tn = Some t \<and> tables (snd (putMultiple tn entries db)) tn = Some t'
           \<and> (\<forall>k. map_of t' k = (case map_of (rev entries) k of None \<Rightarrow> map_of t k | Some v \<Rightarrow> Some v)))"
proof -
  from ok obtain t where t: "tables db tn = Some t"
    by (auto simp: batch_fails_def)
  let ?changes = "map (\<lambda>item. insert_or_replace (fst item) (snd item)) entries"
  from write_all_ok[OF t, of ?changes] ok
  have w: "fst (write_all tn ?changes db) = Inr ()"
    "tables (snd (write_all tn ?changes db)) = (tables db)(tn \<mapsto> foldl (\<lambda>t change. change t) t ?changes)"
    by simp_all
  have res: "fst (putMultiple tn entries db) = Inr []
      \<and> tables (snd (putMultiple tn entries db)) tn = Some (foldl (\<lambda>t change. change t) t ?changes)"
  proof (cases "length entries = 1")
    case True
    then have e: "entries = [hd entries]" by (rule length_one)
    obtain r d where rd: "run_write tn (insert_or_replace (fst (hd entries)) (snd (hd entries))) db = (r, d)"
      by (cases "run_write tn (insert_or_replace (fst (hd entries)) (snd (hd entries))) db")
    have "write_all tn ?changes db = write_all tn [insert_or_replace (fst (hd entries)) (snd (hd entries))] db"
      by (subst e) simp
    with rd have "write_all tn ?changes db = (r, d)"
      by (cases r) simp_all
    with w have "r = Inr ()" "tables d = (tables db)(tn \<mapsto> foldl (\<lambda>t change. change t) t ?changes)"
      by simp_all
    with rd True show ?thesis
      by (simp add: putMultiple_def put_def stmtPut_run_def)
  next
    case False
    with ne have big: "length entries \<noteq> 0" "length entries \<noteq> 1" by simp_all
    from w have "fst (put_items tn entries db) = Inr ()"
      "tables (snd (put_items tn entries db)) tn = Some (foldl (\<lambda>t change. change t) t ?changes)"
      by (simp_all add: put_items_write_all)
    with transaction_result(1)[of "put_items tn" entries db]
      transaction_result(2)[of "put_items tn" entries db "()"]
    have "fst (transaction (put_items tn) entries db) = Inr ()"
      "tables (snd (transaction (put_items tn) entries db)) tn = Some (foldl (\<lambda>t change. change t) t ?changes)"
      by simp_all
    with big show ?thesis
      by (auto simp add: putMultiple_def split: prod.splits sum.splits)
  qed
  with t map_of_upserts[of t entries] show ?thesis by simp
qed

lemma putMultiple_failure:
  assumes big: "2 \<le> length entries" and bad: "batch_fails db tn (length entries)"
  shows "fst (putMultiple tn entries db) = Inr (map fst entries)
     \<and> tables (snd (putMultiple tn entries db)) = tables db"
proof -
  let ?changes = "map (\<lambda>item. insert_or_replace (fst item) (snd item)) entries"
  from big have ne: "?changes \<noteq> []" by auto
  from write_all_fails[OF ne] bad obtain e where "fst (write_all tn ?changes db) = Inl e"
    by auto
  then have f: "fst (put_items tn entries db) = Inl e"
    by (simp add: put_items_write_all)
  with transaction_result(1)[of "put_items tn" entries db]
    transaction_result(3)[of "put_items tn" entries db e]
  have "fst (transaction (put_items tn) entries db) = Inl e"
    "tables (snd (transaction (put_items tn) entries db)) = tables db"
    by simp_all
  with big show ?thesis
    by (auto simp add: putMultiple_def split: prod.splits sum.splits)
qed

lemma putMultiple_single_failure:
  assumes one: "length entries = 1" and bad: "batch_fails db tn 1"
  shows "(\<exists>e. fst (putMultiple tn entries db) = Inl e)
     \<and> tables (snd (putMultiple tn entries db)) = tables db"
proof -
  from bad have "tables db tn = None \<or> fst (next_fault (faults db)) \<noteq> None"
    using batch_fails_Suc[of db tn 0] by simp
  from run_write_fails[OF this, of "insert_or_replace (fst (hd entries)) (snd (hd entries))"]
  obtain e where "run_write tn (insert_or_replace (fst (hd entries)) (snd (hd entries))) db
      = (Inl e, db\<lparr>faults := snd (next_fault (faults db))\<rparr>)"
    by blast
  with one show ?thesis
    by (simp add: putMultiple_def put_def stmtPut_run_def)
qed

lemma deleteMultiple_success:
  assumes ne: "ks \<noteq> []" and ok: "\<not> batch_fails db tn (length ks)"
  shows "fst (deleteMultiple tn ks db) = Inr []
     \<and> (\<exists>t t'. tables db tn = Some t \<and> tables (snd (deleteMultiple tn ks db)) tn = Some t'
           \<and> (\<forall>k. map_of t' k = (if k \<in> set ks then None else map_of t k)))"
proof -
  from ok obtain t where t: "tables db tn = Some t"
    by (auto simp: batch_fails_def)
  let ?changes = "map delete_where ks"
  from write_all_ok[OF t, of ?changes] ok
  have w: "fst (write_all tn ?changes db) = Inr ()"
    "tables (snd (write_all tn ?changes db)) = (tables db)(tn \<mapsto> foldl (\<lambda>t change. change t) t ?changes)"
    by simp_all
  have res: "fst (deleteMultiple tn ks db) = Inr []
      \<and> tables (snd (deleteMultiple tn ks db)) tn = Some (foldl (\<lambda>t change. change t) t ?changes)"
  proof (cases "length ks = 1")
    case True
    then have e: "ks = [hd ks]" by (rule length_one)
    obtain r d where rd: "run_write tn (delete_where (hd ks)) db = (r, d)"
      by (cases "run_write tn (delete_where (hd ks)) db")
    have "write_all tn ?changes db = write_all tn [delete_where (hd ks)] db"
      by (subst e) simp
    with rd have "write_all tn ?changes db = (r, d)"
      by (cases r) simp_all
    with w have "r = Inr ()" "tables d = (tables db)(tn \<mapsto> foldl (\<lambda>t change. change t) t ?changes)"
      by simp_all
    with rd True show ?thesis
      by (simp add: deleteMultiple_def delete_def stmtDelete_run_def)
  next
    case False
    with ne have big: "length ks \<noteq> 0" "length ks \<noteq> 1" by simp_all
    from w have "fst (delete_keys tn ks db) = Inr ()"
      "tables (snd (delete_keys tn ks db)) tn = Some (foldl (\<lambda>t change. change t) t ?changes)"
      by (simp_all add: delete_keys_write_all)
    with transaction_result(1)[of "delete_keys tn" ks db]
      transaction_result(2)[of "delete_keys tn" ks db "()"]
    have "fst (transaction (delete_keys tn) ks db) = Inr ()"
      "tables (snd (transaction (delete_keys tn) ks db)) tn = Some (foldl (\<lambda>t change. change t) t ?changes)"
      by simp_all
    with big show ?thesis
      by (auto simp add: deleteMultiple_def split: prod.splits sum.splits)
  qed
  with t map_of_deletes[of t ks] show ?thesis by simp
qed

lemma deleteMultiple_failure:
  assumes big: "2 \<le> length ks" and bad: "batch_fails db tn (length ks)"
  shows "fst (deleteMultiple tn ks db) = Inr ks
     \<and> tables (snd (deleteMultiple tn ks db)) = tables db"
proof -
  let ?changes = "map delete_where ks"
  from big have ne: "?changes \<noteq> []" by auto
  from write_all_fails[OF ne] bad obtain e where "fst (write_all tn ?changes db) = Inl e"
    by auto
  then have f: "fst (delete_keys tn ks db) = Inl e"
    by (simp add: delete_keys_write_all)
  with transaction_result(1)[of "delete_keys tn" ks db]
    transaction_result(3)[of "delete_keys tn" ks db e]
  have "fst (transaction (delete_keys tn) ks db) = Inl e"
    "tables (snd (transaction (delete_keys tn) ks db)) = tables db"
    by simp_all
  with big show ?thesis
    by (auto simp add: deleteMultiple_def split: prod.splits sum.splits)
qed

lemma deleteMultiple_single_failure:
  assumes one: "length ks = 1" and bad: "batch_fails db tn 1"
  shows "(\<exists>e. fst (deleteMultiple tn ks db) = Inl e)
     \<and> tables (snd (deleteMultiple tn ks db)) = tables db"
proof -
  from bad have "tables db tn = None \<or> fst (next_fault (faults db)) \<noteq> None"
    using batch_fails_Suc[of db tn 0] by simp
  from run_write_fails[OF this, of "delete_where (hd ks)"]
  obtain e where "run_write tn (delete_where (hd ks)) db
      = (Inl e, db\<lparr>faults := snd (next_fault (faults db))\<rparr>)"
    by blast
  with one show ?thesis
    by (simp add: deleteMultiple_def delete_def stmtDelete_run_def)
qed

text \<open>
  Claim C1, as the code has it. A batch of two or more entries runs in one transaction:
  when the storage works for its statements, \<open>putMultiple\<close> returns the empty list and
  \<open>get\<close> of every key of the batch returns the value of the last entry of the batch
  with that key (of its entry, when the keys are unique); when the storage fails, at
  whatever statement, it returns exactly the keys of the batch and the tables are as
  before the call, so every \<open>get\<close> answers as before. A batch of one entry is a plain
  \<open>put\<close> outside any \<^verbatim>\<open>try\<close>: when the storage works the result is the same; when
  it fails the call throws, no list of keys is returned, and the tables are as before.
  \<open>deleteMultiple\<close> does the same for keys, \<open>get\<close> of a deleted key returning
  nothing.
\<close>

theorem batches_all_or_nothing:
  "(entries \<noteq> [] \<and> \<not> batch_fails db tn (length entries) \<longrightarrow>
       fst (putMultiple tn entries db) = Inr []
     \<and> (\<forall>k \<in> fst ` set entries.
           get parse tn k False (snd (putMultiple tn entries db))
             = Inr (map_option Text (map_of (rev entries) k)))
     \<and> (distinct (map fst entries) \<longrightarrow>
          (\<forall>e \<in> set entries.
             get parse tn (fst e) False (snd (putMultiple tn entries db)) = Inr (Some (Text (snd e))))))
   \<and> (2 \<le> length entries \<and> batch_fails db tn (length entries) \<longrightarrow>
       fst (putMultiple tn entries db) = Inr (map fst entries)
     \<and> tables (snd (putMultiple tn entries db)) = tables db
     \<and> get parse tn k as_json (snd (putMultiple tn entries db)) = get parse tn k as_json db)
   \<and> (length entries = 1 \<and> batch_fails db tn 1 \<longrightarrow>
       (\<exists>e. fst (putMultiple tn entries db) = Inl e)
     \<and> tables (snd (putMultiple tn entries db)) = tables db)
   \<and> (ks \<noteq> [] \<and> \<not> batch_fails db tn (length ks) \<longrightarrow>
       fst (deleteMultiple tn ks db) = Inr []
     \<and> (\<forall>k \<in> set ks. get parse tn k as_json (snd (deleteMultiple tn ks db)) = Inr None))
   \<and> (2 \<le> length ks \<and> batch_fails db tn (length ks) \<longrightarrow>
       fst (deleteMultiple tn ks db) = Inr ks
     \<and> tables (snd (deleteMultiple tn ks db)) = tables db
     \<and> get parse tn k as_json (snd (deleteMultiple tn ks db)) = get parse tn k as_json db)
   \<and> (length ks = 1 \<and> batch_fails db tn 1 \<longrightarrow>
       (\<exists>e. fst (deleteMultiple tn ks db) = Inl e)
     \<and> tables (snd (deleteMultiple tn ks db)) = tables db)"
proof (intro conjI impI ballI)
  assume a: "entries \<noteq> [] \<and> \<not> batch_fails db tn (length entries)"
  from putMultiple_success[of entries db tn] a obtain t t' where
    r: "fst (putMultiple tn entries db) = Inr []" "tables db tn = Some t"
       "tables (snd (putMultiple tn entries db)) tn = Some t'"
       "\<forall>k. map_of t' k = (case map_of (rev entries) k of None \<Rightarrow> map_of t k | Some v \<Rightarrow> Some v)"
    by blast
  show "fst (putMultiple tn entries db) = Inr []" by (rule r(1))
  {
    fix k assume "k \<in> fst ` set entries"
    from map_of_rev_in_keys[OF this] obtain v where "map_of (rev entries) k = Some v" by blast
    with r(4) have "map_of t' k = map_of (rev entries) k" by simp
    with get_text[OF r(3), of parse k]
    show "get parse tn k False (snd (putMultiple tn entries db))
             = Inr (map_option Text (map_of (rev entries) k))"
      by simp
  }
  {
    fix e assume d: "distinct (map fst entries)" and e: "e \<in> set entries"
    from map_of_rev_distinct[OF d, of "fst e" "snd e"] e
    have "map_of (rev entries) (fst e) = Some (snd e)" by simp
    with r(4) have "map_of t' (fst e) = Some (snd e)" by simp
    with get_text[OF r(3), of parse "fst e"]
    show "get parse tn (fst e) False (snd (putMultiple tn entries db)) = Inr (Some (Text (snd e)))"
      by simp
  }
next
  assume a: "2 \<le> length entries \<and> batch_fails db tn (length entries)"
  from putMultiple_failure[of entries db tn] a
  have r: "fst (putMultiple tn entries db) = Inr (map fst entries)"
      "tables (snd (putMultiple tn entries db)) = tables db"
    by simp_all
  show "fst (putMultiple tn entries db) = Inr (map fst entries)" by (rule r(1))
  show "tables (snd (putMultiple tn entries db)) = tables db" by (rule r(2))
  show "get parse tn k as_json (snd (putMultiple tn entries db)) = get parse tn k as_json db"
    by (rule get_tables_cong[OF r(2)])
next
  assume a: "length entries = 1 \<and> batch_fails db tn 1"
  from putMultiple_single_failure[of entries db tn] a
  show "\<exists>e. fst (putMultiple tn entries db) = Inl e"
    and "tables (snd (putMultiple tn entries db)) = tables db"
    by simp_all
next
  assume a: "ks \<noteq> [] \<and> \<not> batch_fails db tn (length ks)"
  from deleteMultiple_success[of ks db tn] a obtain t t' where
    r: "fst (deleteMultiple tn ks db) = Inr []"
       "tables (snd (deleteMultiple tn ks db)) tn = Some t'"
       "\<forall>k. map_of t' k = (if k \<in> set ks then None else map_of t k)"
    by blast
  show "fst (deleteMultiple tn ks db) = Inr []" by (rule r(1))
  {
    fix k assume "k \<in> set ks"
    with r(3) have "map_of t' k = None" by simp
    from get_absent[OF r(2) this]
    show "get parse tn k as_json (snd (deleteMultiple tn ks db)) = Inr None" .
  }
next
  assume a: "2 \<le> length ks \<and> batch_fails db tn (length ks)"
  from deleteMultiple_failure[of ks db tn] a
  have r: "fst (deleteMultiple tn ks db) = Inr ks"
      "tables (snd (deleteMultiple tn ks db)) = tables db"
    by simp_all
  show "fst (deleteMultiple tn ks db) = Inr ks" by (rule r(1))
  show "tables (snd (deleteMultiple tn ks db)) = tables db" by (rule r(2))
  show "get parse tn k as_json (snd (deleteMultiple tn ks db)) = get parse tn k as_json db"
    by (rule get_tables_cong[OF r(2)])
next
  assume a: "length ks = 1 \<and> batch_fails db tn 1"
  from deleteMultiple_single_failure[of ks db tn] a
  show "\<exists>e. fst (deleteMultiple tn ks db) = Inl e"
    and "tables (snd (deleteMultiple tn ks db)) = tables db"
    by simp_all
qed

theorem batches_all_or_nothing_witness:
  "batch_fails (one_table ''test_table'' [(''key1'', ''old'')] [None, Some ''disk is full'']) ''test_table''
      (length [(''key1'', ''value1''), (''key2'', ''value2'')])
   \<and> fst (putMultiple ''test_table'' [(''key1'', ''value1''), (''key2'', ''value2'')]
           (one_table ''test_table'' [(''key1'', ''old'')] [None, Some ''disk is full'']))
       = Inr [''key1'', ''key2'']
   \<and> get (\<lambda>s. Inl []) ''test_table'' ''key1'' False
         (snd (putMultiple ''test_table'' [(''key1'', ''value1''), (''key2'', ''value2'')]
           (one_table ''test_table'' [(''key1'', ''old'')] [None, Some ''disk is full''])))
       = Inr (Some (Text ''old''))
   \<and> \<not> batch_fails (one_table ''test_table'' [(''key1'', ''old'')] []) ''test_table''
      (length [(''key1'', ''value1''), (''key2'', ''value2'')])
   \<and> fst (putMultiple ''test_table'' [(''key1'', ''value1''), (''key2'', ''value2'')]
           (one_table ''test_table'' [(''key1'', ''old'')] []))
       = Inr []
   \<and> get (\<lambda>s. Inl []) ''test_table'' ''key1'' False
         (snd (putMultiple ''test_table'' [(''key1'', ''value1''), (''key2'', ''value2'')]
           (one_table ''test_table'' [(''key1'', ''old'')] [])))
       = Inr (Some (Text ''value1''))"
proof -
  let ?entries = "[(''key1'', ''value1''), (''key2'', ''value2'')]"
  let ?bad = "one_table ''test_table'' [(''key1'', ''old'')] [None, Some ''disk is full'']"
  let ?good = "one_table ''test_table'' [(''key1'', ''old'')] []"
  have b: "batch_fails ?bad ''test_table'' (length ?entries)"
    by (simp add: batch_fails_def one_table_def)
  have g: "\<not> batch_fails ?good ''test_table'' (length ?entries)"
    by (simp add: batch_fails_def one_table_def)
  have before: "get (\<lambda>s. Inl []) ''test_table'' ''key1'' False ?bad = Inr (Some (Text ''old''))"
    by (simp add: get_def stmtGet_get_def one_table_def)
  note t1 = batches_all_or_nothing[of ?entries ?bad "''test_table''" "\<lambda>s. Inl []" "''key1''" False "[]",
      THEN conjunct2, THEN conjunct1, rule_format]
  have two: "2 \<le> length ?entries" by simp
  from t1[OF conjI[OF two b]] before
  have f: "fst (putMultiple ''test_table'' ?entries ?bad) = Inr [''key1'', ''key2'']"
    "get (\<lambda>s. Inl []) ''test_table'' ''key1'' False (snd (putMultiple ''test_table'' ?entries ?bad))
       = Inr (Some (Text ''old''))"
    by simp_all
  note t2 = batches_all_or_nothing[of ?entries ?good "''test_table''" "\<lambda>s. Inl []" "''key1''" False "[]",
      THEN conjunct1, rule_format]
  have ne: "?entries \<noteq> []" by simp
  note s = t2[OF conjI[OF ne g]]
  from s have s1: "fst (putMultiple ''test_table'' ?entries ?good) = Inr []" by blast
  from s have "\<forall>k \<in> fst ` set ?entries.
           get (\<lambda>s. Inl []) ''test_table'' k False (snd (putMultiple ''test_table'' ?entries ?good))
             = Inr (map_option Text (map_of (rev ?entries) k))" by blast
  then have s2: "get (\<lambda>s. Inl []) ''test_table'' ''key1'' False (snd (putMultiple ''test_table'' ?entries ?good))
       = Inr (Some (Text ''value1''))"
    by simp
  from b g f s1 s2 show ?thesis by blast
qed

text \<open>
  The claim as stated fails for a batch of one entry: against a table that is not there,
  \<open>putMultiple\<close> and \<open>deleteMultiple\<close> throw where the claim has them return the key.
\<close>

theorem single_entry_batch_counterexample:
  "fst (putMultiple ''test_table'' [(''key1'', ''value1'')] new_database)
     = Inl (Error ''no such table: test_table'')
   \<and> fst (putMultiple ''test_table'' [(''key1'', ''value1'')] new_database) \<noteq> Inr [''key1'']
   \<and> fst (deleteMultiple ''test_table'' [''key1''] new_database)
     = Inl (Error ''no such table: test_table'')
   \<and> fst (deleteMultiple ''test_table'' [''key1''] new_database) \<noteq> Inr [''key1'']"
  by (simp add: putMultiple_def deleteMultiple_def put_def delete_def stmtPut_run_def
      stmtDelete_run_def run_write_def new_database_def no_such_table_def)


subsection \<open>Pagination\<close>

text \<open>
  Claim C5 at a table that holds the empty key. With limit 1 the first page is the empty
  key, not complete, and its cursor is that key: the empty string. Passed back, the empty
  cursor is falsy and \<open>list\<close> runs the query without a cursor, so the second page is
  the first page again, and so is every page after it: whatever the number of calls, the
  pagination reaches no complete page and never shows the key \<^verbatim>\<open>a\<close>, which the
  unbounded call lists.
\<close>

theorem empty_key_pagination_stuck:
  "list_keys ''test_table'' \<lparr>opt_prefix = None, opt_limit = Some 1, opt_cursor = None\<rparr>
       (one_table ''test_table'' [('''', ''v0''), (''a'', ''v1'')] [])
     = Inr \<lparr>keys = [''''], list_complete = False, cursor = Some ''''\<rparr>
   \<and> list_keys ''test_table'' \<lparr>opt_prefix = None, opt_limit = Some 1, opt_cursor = Some ''''\<rparr>
       (one_table ''test_table'' [('''', ''v0''), (''a'', ''v1'')] [])
     = Inr \<lparr>keys = [''''], list_complete = False, cursor = Some ''''\<rparr>
   \<and> list_pages n ''test_table'' None 1 None
       (one_table ''test_table'' [('''', ''v0''), (''a'', ''v1'')] []) = None
   \<and> list_keys ''test_table'' \<lparr>opt_prefix = None, opt_limit = Some (- 1), opt_cursor = None\<rparr>
       (one_table ''test_table'' [('''', ''v0''), (''a'', ''v1'')] [])
     = Inr \<lparr>keys = ['''', ''a''], list_complete = True, cursor = None\<rparr>"
proof -
  let ?db = "one_table ''test_table'' [('''', ''v0''), (''a'', ''v1'')] []"
  have first: "list_keys ''test_table'' \<lparr>opt_prefix = None, opt_limit = Some 1, opt_cursor = None\<rparr> ?db
     = Inr \<lparr>keys = [''''], list_complete = False, cursor = Some ''''\<rparr>"
    by (simp add: list_keys_def select_keys_def one_table_def sql_limit_def)
  have again: "list_keys ''test_table'' \<lparr>opt_prefix = None, opt_limit = Some 1, opt_cursor = Some ''''\<rparr> ?db
     = Inr \<lparr>keys = [''''], list_complete = False, cursor = Some ''''\<rparr>"
    by (simp add: list_keys_def select_keys_def one_table_def sql_limit_def)
  have stuck: "c = None \<or> c = Some '''' \<Longrightarrow> list_pages n ''test_table'' None 1 c ?db = None" for c
  proof (induction n arbitrary: c)
    case 0
    show ?case by simp
  next
    case (Suc n)
    from Suc.prems show ?case
    proof
      assume "c = None"
      with Suc.IH[of "Some ''''"] first show ?thesis by simp
    next
      assume "c = Some ''''"
      with Suc.IH[of "Some ''''"] again show ?thesis by simp
    qed
  qed
  have unbounded: "list_keys ''test_table'' \<lparr>opt_prefix = None, opt_limit = Some (- 1), opt_cursor = None\<rparr> ?db
     = Inr \<lparr>keys = ['''', ''a''], list_complete = True, cursor = None\<rparr>"
    by (simp add: list_keys_def select_keys_def one_table_def sql_limit_def)
  from first again stuck[of None] unbounded show ?thesis by simp
qed

text \<open>
  Without the empty key among the keys the prefix selects, the pagination works as
  claim C5 describes, for every table, prefix and limit \<open>L > 0\<close>: a page of \<open>L\<close> keys
  is not complete and its cursor is its last key; the next page holds the selected keys
  strictly after that key; and after enough calls the pages, concatenated, are the
  selected keys in ascending order, each once, which is what the unbounded call returns.
\<close>

lemma strict_sorted_matching:
  "distinct (map fst t) \<Longrightarrow> sorted_wrt (<) (matching_keys p t)"
  by (simp add: matching_keys_def strict_sorted_iff distinct_map_filter)

lemma sorted_le_last:
  fixes xs :: "'a::linorder list"
  shows "sorted xs \<Longrightarrow> x \<in> set xs \<Longrightarrow> x \<le> last xs"
proof (induction xs)
  case Nil
  then show ?case by simp
next
  case (Cons a xs)
  show ?case
  proof (cases "xs = []")
    case True
    with Cons.prems show ?thesis by simp
  next
    case False
    then have "last xs \<in> set xs" by simp
    with Cons False show ?thesis by auto
  qed
qed

lemma filter_after_last_take:
  fixes S :: "string list"
  assumes s: "sorted_wrt (<) S" and l: "0 < l" "l \<le> length S"
  shows "filter (\<lambda>k. last (take l S) < k) S = drop l S"
proof -
  let ?c = "last (take l S)"
  have ne: "take l S \<noteq> []" using l by auto
  have split: "S = take l S @ drop l S" by simp
  have ss: "sorted_wrt (<) (take l S @ drop l S)" using s by simp
  then have low: "\<forall>x \<in> set (take l S). x \<le> ?c"
  proof -
    have "sorted_wrt (<) (take l S)" using ss by (simp only: sorted_wrt_append)
    then have "sorted (take l S)" by (simp add: strict_sorted_iff)
    then show ?thesis using sorted_le_last by blast
  qed
  have high: "\<forall>y \<in> set (drop l S). ?c < y"
    using ss ne by (simp only: sorted_wrt_append) (metis last_in_set)
  have "filter (\<lambda>k. ?c < k) (take l S) = []"
    using low by (auto simp: filter_empty_conv)
  moreover have "filter (\<lambda>k. ?c < k) (drop l S) = drop l S"
    using high by (simp add: filter_id_conv)
  moreover have "filter (\<lambda>k. ?c < k) S
      = filter (\<lambda>k. ?c < k) (take l S) @ filter (\<lambda>k. ?c < k) (drop l S)"
    by (metis append_take_drop_id filter_append)
  ultimately show ?thesis by simp
qed

lemma select_keys_page:
  assumes t: "tables db tn = Some t" and L: "0 < L"
  shows "select_keys tn ((case p of None \<Rightarrow> [] | Some x \<Rightarrow> x) @ ''%'') c L db
     = Inr (take (nat L) (filter (after_cursor c) (matching_keys p t)))"
proof -
  have "sort (filter (\<lambda>k. sql_like ((case p of None \<Rightarrow> [] | Some x \<Rightarrow> x) @ ''%'') k \<and> after_cursor c k) (map fst t))
      = filter (after_cursor c) (matching_keys p t)"
    unfolding matching_keys_def by (simp only: filter_sort filter_filter conj_commute)
  then show ?thesis
    using t L by (simp add: select_keys_def sql_limit_def after_cursor_def)
qed

lemma list_keys_page:
  assumes t: "tables db tn = Some t" and L: "0 < L"
    and c: "c \<noteq> Some []"
  shows "list_keys tn \<lparr>opt_prefix = p, opt_limit = Some L, opt_cursor = c\<rparr> db
     = Inr \<lparr>keys = take (nat L) (filter (after_cursor c) (matching_keys p t)),
            list_complete = (length (filter (after_cursor c) (matching_keys p t)) < nat L),
            cursor = (if nat L \<le> length (filter (after_cursor c) (matching_keys p t))
                      then Some (last (take (nat L) (filter (after_cursor c) (matching_keys p t))))
                      else None)\<rparr>"
proof -
  have norm: "(case c of None \<Rightarrow> None | Some x \<Rightarrow> if x = [] then None else Some x) = c"
    using c by (cases c) auto
  have lim: "(if L = 0 then 1000 else L) = L" using L by simp
  show ?thesis
    unfolding list_keys_def
    using L by (simp add: norm lim select_keys_page[OF t L] Let_def min_def) (auto simp: nat_less_iff)
qed

lemma pagination_from:
  assumes t: "tables db tn = Some t" and L: "0 < L"
    and d: "distinct (map fst t)" and ne: "[] \<notin> set (matching_keys p t)"
  shows "c \<noteq> Some [] \<Longrightarrow>
     \<exists>n. list_pages n tn p L c db = Some (Inr (filter (after_cursor c) (matching_keys p t)))"
proof (induction "length (filter (after_cursor c) (matching_keys p t))" arbitrary: c rule: less_induct)
  case less
  let ?M = "matching_keys p t"
  let ?S = "filter (after_cursor c) ?M"
  let ?l = "nat L"
  note page = list_keys_page[OF t L less.prems, of p]
  from L have lpos: "0 < ?l" by simp
  show ?case
  proof (cases "length ?S < ?l")
    case True
    then have "list_pages (Suc 0) tn p L c db = Some (Inr ?S)"
      by (simp add: page)
    then show ?thesis by blast
  next
    case False
    then have len: "?l \<le> length ?S" by simp
    let ?c' = "last (take ?l ?S)"
    have tne: "take ?l ?S \<noteq> []" using len lpos by auto
    then have "?c' \<in> set (take ?l ?S)" by (rule last_in_set)
    then have cin: "?c' \<in> set ?S" by (rule in_set_takeD)
    then have cM: "?c' \<in> set ?M" and cafter: "after_cursor c ?c'" by simp_all
    from cM ne have c'ne: "Some ?c' \<noteq> Some []" by auto
    have sS: "sorted_wrt (<) ?S"
      using strict_sorted_matching[OF d, of p] by (rule sorted_wrt_filter)
    have imp: "\<And>k. (after_cursor c k \<and> ?c' < k) = (?c' < k)"
      using cafter by (cases c) (auto simp: after_cursor_def)
    have "filter (after_cursor (Some ?c')) ?M = filter (\<lambda>k. ?c' < k) ?M"
      by (rule filter_cong[OF refl]) (simp add: after_cursor_def)
    also have "\<dots> = filter (\<lambda>k. ?c' < k) ?S"
      by (simp add: imp)
    also have "\<dots> = drop ?l ?S"
      by (rule filter_after_last_take[OF sS lpos len])
    finally have next_page: "filter (after_cursor (Some ?c')) ?M = drop ?l ?S" .
    have "length (drop ?l ?S) < length ?S" using len lpos by simp
    with next_page have "length (filter (after_cursor (Some ?c')) ?M) < length ?S" by simp
    from less.hyps[OF this c'ne] next_page obtain n where
      n: "list_pages n tn p L (Some ?c') db = Some (Inr (drop ?l ?S))"
      by auto
    have "list_pages (Suc n) tn p L c db = Some (Inr (take ?l ?S @ drop ?l ?S))"
      using False len n by (simp add: page)
    then show ?thesis by (metis append_take_drop_id)
  qed
qed

lemma pagination_complete:
  assumes t: "tables db tn = Some t" and L: "0 < L"
    and d: "distinct (map fst t)" and ne: "[] \<notin> set (matching_keys p t)"
  shows "\<exists>n. list_pages n tn p L None db = Some (Inr (matching_keys p t))"
    and "list_keys tn \<lparr>opt_prefix = p, opt_limit = Some (- 1), opt_cursor = None\<rparr> db
           = Inr \<lparr>keys = matching_keys p t, list_complete = True, cursor = None\<rparr>"
    and "distinct (matching_keys p t)"
proof -
  have "filter (after_cursor None) (matching_keys p t) = matching_keys p t"
    by (simp add: filter_id_conv after_cursor_def)
  with pagination_from[OF t L d ne, of None]
  show "\<exists>n. list_pages n tn p L None db = Some (Inr (matching_keys p t))"
    by simp
  show "list_keys tn \<lparr>opt_prefix = p, opt_limit = Some (- 1), opt_cursor = None\<rparr> db
           = Inr \<lparr>keys = matching_keys p t, list_complete = True, cursor = None\<rparr>"
    using t by (simp add: list_keys_def select_keys_def sql_limit_def matching_keys_def)
  show "distinct (matching_keys p t)"
    using strict_sorted_matching[OF d, of p] by (simp add: strict_sorted_iff)
qed

subsection \<open>What a prefix selects\<close>

text \<open>
  What remains of claim C4 on the code: every stored key that starts with the prefix is
  selected (among others, as shown above), and a page is sorted, capped at the limit and
  made of selected keys.
\<close>

lemma matching_keys_contains_prefixed:
  "k \<in> fst ` set t \<Longrightarrow> k = p @ s \<Longrightarrow> k \<in> set (matching_keys (Some p) t)"
  using like_literal_prefix[of p s] by (simp add: matching_keys_def)

lemma matching_keys_sound:
  "k \<in> set (matching_keys p t) \<Longrightarrow>
     k \<in> fst ` set t \<and> sql_like ((case p of None \<Rightarrow> [] | Some x \<Rightarrow> x) @ ''%'') k"
  by (simp add: matching_keys_def)

lemma list_keys_sorted_capped:
  assumes t: "tables db tn = Some t" and L: "0 < L" and c: "c \<noteq> Some []"
  shows "\<exists>r. list_keys tn \<lparr>opt_prefix = p, opt_limit = Some L, opt_cursor = c\<rparr> db = Inr r
           \<and> sorted (keys r) \<and> length (keys r) \<le> nat L
           \<and> set (keys r) \<subseteq> set (matching_keys p t)
           \<and> (list_complete r \<longrightarrow> keys r = filter (after_cursor c) (matching_keys p t))"
proof -
  let ?S = "filter (after_cursor c) (matching_keys p t)"
  have "sorted (matching_keys p t)" by (simp add: matching_keys_def)
  then have "sorted ?S" by (rule sorted_wrt_filter)
  then have "sorted (take (nat L) ?S)" by (rule sorted_wrt_take)
  moreover have "set (take (nat L) ?S) \<subseteq> set (matching_keys p t)"
    by (auto dest: in_set_takeD)
  ultimately show ?thesis
    by (simp add: list_keys_page[OF t L c])
qed

end
